theory Spec2Isabelle
  imports
    Complex_Main
    "HOL-Library.Char_ord"
    "HOL-Library.List_Lexorder"
    "HOL-Library.Multiset"
begin

section \<open>Calendar dates and ISO strings\<close>

text \<open>
  Python's \<^verbatim>\<open>datetime.date\<close> is a triple (year, month, day) of the proleptic Gregorian
  calendar with \<^verbatim>\<open>MINYEAR = 1\<close> and \<^verbatim>\<open>MAXYEAR = 9999\<close>; its constructor refuses every
  other triple with \<^verbatim>\<open>ValueError\<close>, dates compare as triples, and arithmetic that leaves the
  range raises \<^verbatim>\<open>OverflowError\<close>.
\<close>

datatype error = ValueError | OverflowError

record date =
  year :: nat
  month :: nat
  day :: nat

definition is_leap :: "nat \<Rightarrow> bool" where
  "is_leap y = (y mod 4 = 0 \<and> (y mod 100 \<noteq> 0 \<or> y mod 400 = 0))"

definition days_in_month :: "nat \<Rightarrow> nat \<Rightarrow> nat" where
  "days_in_month y m =
     (if m = 2 then (if is_leap y then 29 else 28)
      else if m = 4 \<or> m = 6 \<or> m = 9 \<or> m = 11 then 30 else 31)"

definition valid_date :: "date \<Rightarrow> bool" where
  "valid_date d =
     (1 \<le> year d \<and> year d \<le> 9999 \<and> 1 \<le> month d \<and> month d \<le> 12 \<and>
      1 \<le> day d \<and> day d \<le> days_in_month (year d) (month d))"

text \<open>The constructor \<^verbatim>\<open>date(year=y, month=m, day=d)\<close>.\<close>

definition mk_date :: "nat \<Rightarrow> nat \<Rightarrow> nat \<Rightarrow> error + date" where
  "mk_date y m d =
     (let r = \<lparr>year = y, month = m, day = d\<rparr>
      in if valid_date r then Inr r else Inl ValueError)"

text \<open>Comparison of dates is comparison of the triples.\<close>

definition date_le :: "date \<Rightarrow> date \<Rightarrow> bool" where
  "date_le a b =
     (year a < year b \<or>
      (year a = year b \<and> (month a < month b \<or> (month a = month b \<and> day a \<le> day b))))"

definition date_less :: "date \<Rightarrow> date \<Rightarrow> bool" where
  "date_less a b = (date_le a b \<and> a \<noteq> b)"

text \<open>\<^verbatim>\<open>min(a, b)\<close> on dates: \<open>b\<close> when it is smaller, else \<open>a\<close>.\<close>

definition date_min :: "date \<Rightarrow> date \<Rightarrow> date" where
  "date_min a b = (if date_less b a then b else a)"

text \<open>
  \<^verbatim>\<open>d + timedelta(days=1)\<close> and \<^verbatim>\<open>d - timedelta(days=1)\<close>: the next and the previous
  calendar day, \<^verbatim>\<open>OverflowError\<close> past 9999-12-31 or before 0001-01-01.
\<close>

definition next_day :: "date \<Rightarrow> error + date" where
  "next_day d =
     (if day d < days_in_month (year d) (month d) then Inr (d\<lparr>day := day d + 1\<rparr>)
      else if month d < 12 then Inr (d\<lparr>month := month d + 1, day := 1\<rparr>)
      else if year d < 9999 then Inr \<lparr>year = year d + 1, month = 1, day = 1\<rparr>
      else Inl OverflowError)"

definition prev_day :: "date \<Rightarrow> error + date" where
  "prev_day d =
     (if 1 < day d then Inr (d\<lparr>day := day d - 1\<rparr>)
      else if 1 < month d then
        Inr (d\<lparr>month := month d - 1, day := days_in_month (year d) (month d - 1)\<rparr>)
      else if 1 < year d then Inr \<lparr>year = year d - 1, month = 12, day = 31\<rparr>
      else Inl OverflowError)"

text \<open>
  \<^verbatim>\<open>d + timedelta(days=n)\<close> and \<^verbatim>\<open>d - timedelta(days=n)\<close> for a count \<open>n\<close> of days: \<open>n\<close>
  steps of one day, failing as soon as a step leaves the range.
\<close>

fun add_days :: "date \<Rightarrow> nat \<Rightarrow> error + date" where
  "add_days d 0 = Inr d"
| "add_days d (Suc n) = (case next_day d of Inl e \<Rightarrow> Inl e | Inr d' \<Rightarrow> add_days d' n)"

fun sub_days :: "date \<Rightarrow> nat \<Rightarrow> error + date" where
  "sub_days d 0 = Inr d"
| "sub_days d (Suc n) = (case prev_day d of Inl e \<Rightarrow> Inl e | Inr d' \<Rightarrow> sub_days d' n)"

subsection \<open>Decimal text\<close>

definition digit_char :: "nat \<Rightarrow> char" where
  "digit_char n = char_of (48 + n mod 10)"

fun show_nat :: "nat \<Rightarrow> string" where
  "show_nat n = (if n < 10 then [digit_char n] else show_nat (n div 10) @ [digit_char n])"

declare show_nat.simps [simp del]

text \<open>The format \<^verbatim>\<open>%0kd\<close>: at least \<open>k\<close> digits, padded with zeros on the left.\<close>

definition zero_pad :: "nat \<Rightarrow> nat \<Rightarrow> string" where
  "zero_pad k n = replicate (k - length (show_nat n)) (CHR ''0'') @ show_nat n"

definition isoformat :: "date \<Rightarrow> string" where
  "isoformat d = zero_pad 4 (year d) @ ''-'' @ zero_pad 2 (month d) @ ''-'' @ zero_pad 2 (day d)"

text \<open>
  \<^verbatim>\<open>datetime.fromisoformat\<close> belongs to the Python library, not to this repository. The
  functions that call it take it as the parameter \<open>fromiso\<close>: the calendar date of the
  \<^verbatim>\<open>datetime\<close> the text denotes (the code reads its \<^verbatim>\<open>.year\<close> or its \<^verbatim>\<open>.date()\<close>, a
  timestamp such as \<^verbatim>\<open>2024-05-01T10:30:00\<close> included), or \<^verbatim>\<open>ValueError\<close> where it raises.
  Nothing is assumed of it: every statement below holds for every such function.
\<close>

type_synonym iso_parser = "string \<Rightarrow> error + date"

section \<open>Timeline events and the year-sharded store\<close>

text \<open>
  Modelled from the spec: the dataclass \<^verbatim>\<open>TimelineEvent\<close> (module \<^verbatim>\<open>event_schema\<close>) with
  the fields the spec lists. The fields \<^verbatim>\<open>id\<close> and \<^verbatim>\<open>type\<close> are \<open>event_id\<close> and
  \<open>event_type\<close> here; an unset (\<^verbatim>\<open>None\<close> or empty) \<^verbatim>\<open>source\<close> is the empty string; the
  metadata mapping is an association list read with \<open>map_of\<close>.
\<close>

record TimelineEvent =
  event_id :: string
  date :: string
  title :: string
  event_type :: string
  details :: string
  tags :: "string list"
  source :: string
  metadata :: "(string \<times> string) list"
  archived :: bool


text \<open>
  The store is the directory of files \<^verbatim>\<open><year>.json\<close>: an association list from the year to
  the rows of its shard, in the order in which the directory lists its files. A row is the
  dictionary \<^verbatim>\<open>asdict(event)\<close>, read back by \<^verbatim>\<open>TimelineEvent(**item)\<close>, hence an event.
\<close>

type_synonym store = "(int \<times> TimelineEvent list) list"


definition save_year :: "int \<Rightarrow> TimelineEvent list \<Rightarrow> store \<Rightarrow> store" where
  "save_year yr evs st =
     (if yr \<in> set (map fst st) then map (\<lambda>(k, v). if k = yr then (k, evs) else (k, v)) st
      else st @ [(yr, evs)])"

definition load_raw_year :: "int \<Rightarrow> store \<Rightarrow> TimelineEvent list \<times> store" where
  "load_raw_year yr st =
     (case map_of st yr of
        None \<Rightarrow> ([], save_year yr [] st)
      | Some evs \<Rightarrow> (evs, st))"

definition load_year :: "int \<Rightarrow> store \<Rightarrow> TimelineEvent list \<times> store" where
  "load_year yr st = load_raw_year yr st"


text \<open>The file name of a shard, and the years of the shards in the order of the sorted paths.\<close>

definition year_file :: "int \<Rightarrow> string" where
  "year_file yr = (if yr < 0 then ''-'' @ show_nat (nat (- yr)) else show_nat (nat yr)) @ ''.json''"

definition sorted_years :: "store \<Rightarrow> int list" where
  "sorted_years st = sort_key year_file (map fst st)"

text \<open>The local predicate \<^verbatim>\<open>in_range\<close> of \<^verbatim>\<open>get_events\<close>, with its early returns in order.\<close>

definition in_range ::
  "string option \<Rightarrow> string option \<Rightarrow> string list \<Rightarrow> bool \<Rightarrow> TimelineEvent \<Rightarrow> bool" where
  "in_range start_date end_date tgs include_archived event =
     (if \<not> include_archived \<and> archived event then False
      else if tgs \<noteq> [] \<and> filter (\<lambda>t. t \<in> set (tags event)) (remdups tgs) = [] then False
      else if (case start_date of None \<Rightarrow> False | Some s \<Rightarrow> s \<noteq> [] \<and> date event < s) then False
      else if (case end_date of None \<Rightarrow> False | Some s \<Rightarrow> s \<noteq> [] \<and> date event > s) then False
      else True)"

fun load_all :: "int list \<Rightarrow> store \<Rightarrow> TimelineEvent list \<times> store" where
  "load_all [] st = ([], st)"
| "load_all (yr # yrs) st =
     (let (evs, st1) = load_year yr st; (rest, st2) = load_all yrs st1 in (evs @ rest, st2))"

definition get_events ::
  "int option \<Rightarrow> string option \<Rightarrow> string option \<Rightarrow> string list option \<Rightarrow> bool \<Rightarrow> store
     \<Rightarrow> TimelineEvent list \<times> store" where
  "get_events yr start_date end_date tgs_opt include_archived st =
     (let tgs = (case tgs_opt of None \<Rightarrow> [] | Some ts \<Rightarrow> ts);
          (candidates, st1) =
             (case yr of Some y \<Rightarrow> load_year y st | None \<Rightarrow> load_all (sorted_years st) st)
      in (filter (in_range start_date end_date tgs include_archived) candidates, st1))"

text \<open>The inner loop of \<^verbatim>\<open>archive_event\<close> over the rows of one shard.\<close>

fun archive_scan ::
  "string \<Rightarrow> TimelineEvent list \<Rightarrow> TimelineEvent list \<Rightarrow> TimelineEvent option
     \<Rightarrow> TimelineEvent list \<times> TimelineEvent option" where
  "archive_scan eid [] updated archived_event = (updated, archived_event)"
| "archive_scan eid (item # items) updated archived_event =
     (if event_id item = eid then
        (let item1 = (if \<not> archived item then item\<lparr>archived := True\<rparr> else item)
         in archive_scan eid items (updated @ [item1]) (Some item1))
      else archive_scan eid items (updated @ [item]) archived_event)"

text \<open>The outer loop over the listed shard files; the first shard with a match is rewritten.\<close>

fun archive_loop :: "string \<Rightarrow> int list \<Rightarrow> store \<Rightarrow> TimelineEvent option \<times> store" where
  "archive_loop eid [] st = (None, st)"
| "archive_loop eid (yr # yrs) st =
     (let (events, st1) = load_raw_year yr st
      in case archive_scan eid events [] None of
           (updated, Some ev) \<Rightarrow> (Some ev, save_year yr updated st1)
         | (updated, None) \<Rightarrow> archive_loop eid yrs st1)"

definition archive_event :: "string \<Rightarrow> store \<Rightarrow> TimelineEvent option \<times> store" where
  "archive_event eid st = archive_loop eid (map fst st) st"


subsection \<open>Reading the store\<close>

text \<open>The rows of one year, none when the shard does not exist; all rows of the store.\<close>

definition shard :: "store \<Rightarrow> int \<Rightarrow> TimelineEvent list" where
  "shard st yr = (case map_of st yr of None \<Rightarrow> [] | Some evs \<Rightarrow> evs)"


text \<open>The events \<^verbatim>\<open>get_events\<close> filters: one shard, or every shard in the order of the sorted paths.\<close>

definition candidates :: "int option \<Rightarrow> store \<Rightarrow> TimelineEvent list" where
  "candidates yr st =
     (case yr of Some y \<Rightarrow> shard st y | None \<Rightarrow> concat (map (shard st) (sorted_years st)))"

text \<open>A row after \<^verbatim>\<open>archive_event\<close> has visited it, and the shards that hold the identifier.\<close>

definition mark :: "string \<Rightarrow> TimelineEvent \<Rightarrow> TimelineEvent" where
  "mark eid item = (if event_id item = eid then item\<lparr>archived := True\<rparr> else item)"

definition has_id :: "string \<Rightarrow> store \<Rightarrow> int \<Rightarrow> bool" where
  "has_id eid st yr = (\<exists>e \<in> set (shard st yr). event_id e = eid)"


subsection \<open>Sequences of calls\<close>

text \<open>
  A call of \<^verbatim>\<open>add_event\<close>, \<^verbatim>\<open>archive_event\<close> or \<^verbatim>\<open>correct_event\<close>; the store a call and a
  sequence of calls leave, whether or not a call raised; the events the calls returned as
  stored; and the identifier a call targets.
\<close>

datatype timeline_op = Add TimelineEvent | Archive string | Correct string TimelineEvent







section \<open>The monthly arc engine: aggregation\<close>

text \<open>
  A weekly arc as the engine reads it: \<^verbatim>\<open>week.get("arc", {})\<close> is either a dictionary, whose
  entry \<^verbatim>\<open>narrative\<close> is a dictionary or missing or empty, or a value of another type. A
  narrative carries \<^verbatim>\<open>hook\<close>, \<^verbatim>\<open>arc\<close> and, optionally, \<^verbatim>\<open>turning_points\<close>, a list or
  another value rendered by \<^verbatim>\<open>str\<close>; a missing \<^verbatim>\<open>arc\<close> reads as the empty string.
\<close>

datatype turning = TPList "string list" | TPText string

record narrative =
  hook :: string
  arc :: string
  turning_points :: "turning option"

datatype arc_value = ArcDict "narrative option" | ArcOther

record weekly_arc =
  week_label :: string
  week_arc :: arc_value

text \<open>\<^verbatim>\<open>sep.join(xs)\<close>.\<close>

fun join :: "string \<Rightarrow> string list \<Rightarrow> string" where
  "join sep [] = []"
| "join sep [x] = x"
| "join sep (x # y # ys) = x @ sep @ join sep (y # ys)"

subsection \<open>\<^verbatim>\<open>infer_monthly_themes\<close>\<close>

text \<open>
  The dictionary \<^verbatim>\<open>tag_counts\<close> keeps its keys in insertion order: an association list.
  \<^verbatim>\<open>tag_counts[tag] = tag_counts.get(tag, 0) + 1\<close> is \<open>bump_count\<close>.
\<close>

definition bump_count :: "string \<Rightarrow> (string \<times> nat) list \<Rightarrow> (string \<times> nat) list" where
  "bump_count t tc =
     (if t \<in> set (map fst tc) then map (\<lambda>(k, n). if k = t then (k, n + 1) else (k, n)) tc
      else tc @ [(t, 1)])"

definition count_tags :: "TimelineEvent list \<Rightarrow> (string \<times> nat) list" where
  "count_tags events = fold (\<lambda>event tc. fold bump_count (tags event) tc) events []"

text \<open>
  The list \<^verbatim>\<open>trending\<close>. Python's \<^verbatim>\<open>sorted(..., reverse=True)\<close> is stable: items with
  equal counts keep their order, which is the stable ascending sort on the negated count.
\<close>

definition trending_tags :: "(string \<times> nat) list \<Rightarrow> string list" where
  "trending_tags tc =
     (let trending = map fst (filter (\<lambda>(t, c). c > 1) tc)
      in if trending = [] \<and> tc \<noteq> []
         then take 3 (map fst (sort_key (\<lambda>(t, c). - int c) tc))
         else trending)"

definition week_motifs :: "weekly_arc \<Rightarrow> string list" where
  "week_motifs week =
     (case week_arc week of
        ArcDict (Some n) \<Rightarrow> (if arc n \<noteq> [] then [arc n] else [])
      | ArcDict None \<Rightarrow> []
      | ArcOther \<Rightarrow> [])"

text \<open>\<^verbatim>\<open>meta.get("sentiment") or meta.get("tone")\<close>; a missing or empty value is the empty string.\<close>

definition meta_get :: "(string \<times> string) list \<Rightarrow> string \<Rightarrow> string" where
  "meta_get m k = (case map_of m k of None \<Rightarrow> [] | Some v \<Rightarrow> v)"

definition mood :: "TimelineEvent \<Rightarrow> string" where
  "mood event =
     (if meta_get (metadata event) ''sentiment'' \<noteq> [] then meta_get (metadata event) ''sentiment''
      else meta_get (metadata event) ''tone'')"

definition special_keywords :: "string list" where
  "special_keywords = [''robotics'', ''omega1'', ''japanese'', ''bjj'', ''training'']"

definition infer_monthly_themes :: "TimelineEvent list \<Rightarrow> weekly_arc list \<Rightarrow> string list" where
  "infer_monthly_themes events weekly_arcs =
     (let tag_counts = count_tags events;
          trending = trending_tags tag_counts;
          motifs = concat (map week_motifs weekly_arcs);
          emotional_patterns = filter (\<lambda>m. m \<noteq> []) (map mood events);
          special_tracks =
            map (\<lambda>keyword. ''Progress in '' @ keyword)
              (filter (\<lambda>keyword. keyword \<in> set (map fst tag_counts)) special_keywords);
          themes =
            (if trending \<noteq> [] then [''Trending tags: '' @ join '', '' (sort trending)] else [])
            @ (if motifs \<noteq> [] then [''Repeated motifs: '' @ join '', '' motifs] else [])
            @ (if emotional_patterns \<noteq> []
               then [''Emotional patterns: '' @ join '', '' emotional_patterns] else [])
            @ special_tracks
      in if themes \<noteq> [] then themes else [''No major themes detected.''])"

subsection \<open>\<^verbatim>\<open>detect_epic_progression\<close>\<close>

definition epic_tags :: "(string \<times> string) list" where
  "epic_tags =
     [(''robotics'', ''Robotics: Omega-1''),
      (''omega1'', ''Robotics: Omega-1''),
      (''japanese'', ''Japanese Language''),
      (''bjj'', ''Brazilian Jiu-Jitsu''),
      (''finances'', ''Finances''),
      (''relationships'', ''Relationships''),
      (''health'', ''Health''),
      (''career'', ''Career'')]"

text \<open>
  \<^verbatim>\<open>epic_events.setdefault(epic_key, []).append(event)\<close> on the insertion-ordered
  dictionary \<^verbatim>\<open>epic_events\<close>.
\<close>

definition append_group ::
  "string \<Rightarrow> TimelineEvent \<Rightarrow> (string \<times> TimelineEvent list) list
     \<Rightarrow> (string \<times> TimelineEvent list) list" where
  "append_group epic_key event groups =
     (if epic_key \<in> set (map fst groups)
      then map (\<lambda>(k, g). if k = epic_key then (k, g @ [event]) else (k, g)) groups
      else groups @ [(epic_key, [event])])"

definition group_event ::
  "TimelineEvent \<Rightarrow> (string \<times> TimelineEvent list) list \<Rightarrow> (string \<times> TimelineEvent list) list" where
  "group_event event groups =
     fold (\<lambda>tag gs. case map_of epic_tags tag of
                       None \<Rightarrow> gs
                     | Some epic_key \<Rightarrow> append_group epic_key event gs)
          (tags event) groups"

definition epic_events :: "TimelineEvent list \<Rightarrow> (string \<times> TimelineEvent list) list" where
  "epic_events events = fold group_event events []"

record epic_record =
  epic :: string
  progress :: string
  milestones :: "string list"

definition detect_epic_progression :: "TimelineEvent list \<Rightarrow> epic_record list" where
  "detect_epic_progression events =
     map (\<lambda>(epic_name, epic_group).
            \<lparr>epic = epic_name,
             progress = show_nat (length epic_group) @ '' updates recorded.'',
             milestones = filter (\<lambda>t. t \<noteq> []) (map title epic_group)\<rparr>)
         (epic_events events)"

subsection \<open>\<^verbatim>\<open>summarize_month_tasks\<close>\<close>

text \<open>
  The task collaborator is duck-typed: each attribute the engine probes with \<^verbatim>\<open>hasattr\<close> is
  present or not. \<^verbatim>\<open>summarize_month()\<close> returns a dictionary, of which each key is present or
  not (a falsy result is the dictionary without keys); its \<^verbatim>\<open>efficiency_score\<close> may be present
  and \<^verbatim>\<open>None\<close>. The accessors return lists.
\<close>

type_synonym task = string

datatype 'a entry = Absent | IsNone | Val 'a

record month_update =
  upd_completed :: "task list option"
  upd_overdue :: "task list option"
  upd_new_tasks :: "task list option"
  upd_priority :: "task list option"
  upd_efficiency_score :: "rat entry"
  upd_week_breakdowns :: "task list list option"

record task_engine =
  summarize_month :: "month_update option"
  get_completed_tasks :: "task list option"
  get_overdue_tasks :: "task list option"
  get_overdue :: "task list option"
  get_new_tasks :: "task list option"
  get_priority_tasks :: "task list option"
  get_priority :: "task list option"
  weekly_breakdown :: "task list list option"
  breakdown_by_week :: "task list list option"

text \<open>The summary dictionary; \<^verbatim>\<open>efficiency_score\<close> is a number or \<^verbatim>\<open>None\<close>.\<close>

record task_summary =
  completed :: "task list"
  overdue :: "task list"
  new_tasks :: "task list"
  priority :: "task list"
  efficiency_score :: "rat option"
  week_breakdowns :: "task list list"

definition safe_task_call :: "task list option \<Rightarrow> task list" where
  "safe_task_call method = (case method of None \<Rightarrow> [] | Some ts \<Rightarrow> ts)"

definition update_summary :: "month_update \<Rightarrow> task_summary \<Rightarrow> task_summary" where
  "update_summary u s =
     \<lparr>completed = (case upd_completed u of None \<Rightarrow> completed s | Some v \<Rightarrow> v),
      overdue = (case upd_overdue u of None \<Rightarrow> overdue s | Some v \<Rightarrow> v),
      new_tasks = (case upd_new_tasks u of None \<Rightarrow> new_tasks s | Some v \<Rightarrow> v),
      priority = (case upd_priority u of None \<Rightarrow> priority s | Some v \<Rightarrow> v),
      efficiency_score =
        (case upd_efficiency_score u of
           Absent \<Rightarrow> efficiency_score s | IsNone \<Rightarrow> None | Val v \<Rightarrow> Some v),
      week_breakdowns = (case upd_week_breakdowns u of None \<Rightarrow> week_breakdowns s | Some v \<Rightarrow> v)\<rparr>"

text \<open>
  \<^verbatim>\<open>round(x, 2)\<close> on floats is the parameter \<open>round2\<close>. The summary is created with the key
  \<^verbatim>\<open>efficiency_score\<close> set to \<^verbatim>\<open>0.0\<close>, so the test \<^verbatim>\<open>"efficiency_score" not in summary\<close> is
  never true and only a value \<^verbatim>\<open>None\<close> reaches the computation.
\<close>

definition summarize_month_tasks :: "(rat \<Rightarrow> rat) \<Rightarrow> task_engine \<Rightarrow> task_summary" where
  "summarize_month_tasks round2 te =
     (let summary0 = \<lparr>completed = [], overdue = [], new_tasks = [], priority = [],
                      efficiency_score = Some 0, week_breakdowns = []\<rparr>;
          summary1 =
            (case summarize_month te of
               Some u \<Rightarrow> update_summary u summary0
             | None \<Rightarrow>
                 summary0\<lparr>completed := safe_task_call (get_completed_tasks te),
                   overdue := (if safe_task_call (get_overdue_tasks te) \<noteq> []
                               then safe_task_call (get_overdue_tasks te)
                               else safe_task_call (get_overdue te)),
                   new_tasks := safe_task_call (get_new_tasks te),
                   priority := (if safe_task_call (get_priority_tasks te) \<noteq> []
                                then safe_task_call (get_priority_tasks te)
                                else safe_task_call (get_priority te))\<rparr>);
          summary2 =
            (case weekly_breakdown te of
               Some w \<Rightarrow> summary1\<lparr>week_breakdowns := w\<rparr>
             | None \<Rightarrow>
                 (case breakdown_by_week te of
                    Some w \<Rightarrow> summary1\<lparr>week_breakdowns := w\<rparr>
                  | None \<Rightarrow> summary1))
      in if efficiency_score summary2 = None then
           (let completed_count = length (completed summary2);
                overdue_count = length (overdue summary2);
                base = (if completed_count + overdue_count \<noteq> 0
                        then completed_count + overdue_count else 1)
            in summary2\<lparr>efficiency_score :=
                 Some (round2 (rat_of_nat completed_count / rat_of_nat base))\<rparr>)
         else summary2)"

subsection \<open>Reading the epic groups\<close>

text \<open>
  The epics an event is added to, one for each of its tags in the mapping, in tag order; the
  events added to an epic, each once for every one of its tags that maps to the epic; the
  epics in the order in which they are first met; and the group of a key of the dictionary.
\<close>

definition epics_of :: "TimelineEvent \<Rightarrow> string list" where
  "epics_of event =
     concat (map (\<lambda>t. case map_of epic_tags t of None \<Rightarrow> [] | Some k \<Rightarrow> [k]) (tags event))"

definition epic_group :: "string \<Rightarrow> TimelineEvent list \<Rightarrow> TimelineEvent list" where
  "epic_group k events =
     concat (map (\<lambda>e. replicate (length (filter (\<lambda>t. map_of epic_tags t = Some k) (tags e))) e)
               events)"

definition epic_order :: "TimelineEvent list \<Rightarrow> string list" where
  "epic_order events = rev (remdups (rev (concat (map epics_of events))))"

definition group_of :: "(string \<times> TimelineEvent list) list \<Rightarrow> string \<Rightarrow> TimelineEvent list" where
  "group_of gs k = (case map_of gs k of None \<Rightarrow> [] | Some g \<Rightarrow> g)"

definition first_seen :: "string list \<Rightarrow> string list" where
  "first_seen ks = rev (remdups (rev ks))"

definition epic_pairs :: "TimelineEvent list \<Rightarrow> (string \<times> TimelineEvent) list" where
  "epic_pairs events = concat (map (\<lambda>e. map (\<lambda>k. (k, e)) (epics_of e)) events)"

section \<open>The monthly arc engine: ranges, weeks and composition\<close>

text \<open>
  A bound of the range as the caller may give it: a \<^verbatim>\<open>date\<close>, a \<^verbatim>\<open>datetime\<close> (here its
  date part) or a string. Only the empty string is falsy among them.
\<close>

datatype date_arg = DateObj date | DateTimeObj date | DateStr string

definition truthy :: "date_arg option \<Rightarrow> bool" where
  "truthy a = (case a of None \<Rightarrow> False | Some (DateStr s) \<Rightarrow> s \<noteq> [] | Some _ \<Rightarrow> True)"

text \<open>The reference date \<open>now\<close> stands for \<^verbatim>\<open>datetime.now(UTC).date()\<close>.\<close>

definition normalize_date :: "iso_parser \<Rightarrow> date \<Rightarrow> date_arg option \<Rightarrow> error + date" where
  "normalize_date fromiso now v =
     (case v of
        None \<Rightarrow> Inr now
      | Some (DateTimeObj d) \<Rightarrow> Inr d
      | Some (DateObj d) \<Rightarrow> Inr d
      | Some (DateStr s) \<Rightarrow> fromiso s)"

definition normalize_if_given ::
  "iso_parser \<Rightarrow> date \<Rightarrow> date_arg option \<Rightarrow> error + date option" where
  "normalize_if_given fromiso now v =
     (if truthy v then (case normalize_date fromiso now v of Inl e \<Rightarrow> Inl e | Inr d \<Rightarrow> Inr (Some d))
      else Inr None)"

definition swap_if_after :: "date \<Rightarrow> date \<Rightarrow> date \<times> date" where
  "swap_if_after start stop = (if date_less stop start then (stop, start) else (start, stop))"

definition resolve_month_range ::
  "iso_parser \<Rightarrow> date \<Rightarrow> date_arg option \<Rightarrow> date_arg option \<Rightarrow> error + (date \<times> date)" where
  "resolve_month_range fromiso now start_date end_date =
     (if start_date = None \<and> end_date = None then
        (let today = now in
         case mk_date (year today) (month today) 1 of
           Inl e \<Rightarrow> Inl e
         | Inr start \<Rightarrow>
             (case (if month today = 12 then mk_date (year today + 1) 1 1
                    else mk_date (year today) (month today + 1) 1) of
                Inl e \<Rightarrow> Inl e
              | Inr next_month \<Rightarrow>
                  (case sub_days next_month 1 of
                     Inl e \<Rightarrow> Inl e
                   | Inr stop \<Rightarrow> Inr (start, stop))))
      else
        (case normalize_if_given fromiso now start_date of
           Inl e \<Rightarrow> Inl e
         | Inr start \<Rightarrow>
             (case normalize_if_given fromiso now end_date of
                Inl e \<Rightarrow> Inl e
              | Inr stop \<Rightarrow>
                  (case (start, stop) of
                     (Some s, None) \<Rightarrow>
                       (case add_days s 30 of
                          Inl e \<Rightarrow> Inl e
                        | Inr t \<Rightarrow> Inr (swap_if_after s t))
                   | (None, Some t) \<Rightarrow>
                       (case sub_days t 30 of
                          Inl e \<Rightarrow> Inl e
                        | Inr s \<Rightarrow> Inr (swap_if_after s t))
                   | (None, None) \<Rightarrow>
                       (case sub_days now 30 of
                          Inl e \<Rightarrow> Inl e
                        | Inr s \<Rightarrow> Inr (s, now))
                   | (Some s, Some t) \<Rightarrow> Inr (swap_if_after s t)))))"

subsection \<open>\<^verbatim>\<open>_week_ranges\<close>\<close>

text \<open>A week is the tuple (label, start, end, events in the week).\<close>

type_synonym week = "string \<times> date \<times> date \<times> TimelineEvent list"

definition week_label_text :: "nat \<Rightarrow> date \<Rightarrow> date \<Rightarrow> string" where
  "week_label_text week_index cursor week_end =
     ''Week '' @ show_nat week_index @ '' ('' @ isoformat cursor @ '' to '' @ isoformat week_end
       @ '')''"

definition in_week :: "date \<Rightarrow> date \<Rightarrow> TimelineEvent \<Rightarrow> bool" where
  "in_week cursor week_end event =
     (isoformat cursor \<le> date event \<and> date event \<le> isoformat week_end)"

text \<open>
  The measure of the \<^verbatim>\<open>while\<close> loop: a number that every step to a later day decreases,
  whatever the triple.
\<close>

definition days_left :: "date \<Rightarrow> nat" where
  "days_left d = ((9999 - year d) * 13 + (12 - month d)) * 32 + (31 - day d)"

function week_loop ::
  "date \<Rightarrow> date \<Rightarrow> nat \<Rightarrow> TimelineEvent list \<Rightarrow> week list \<Rightarrow> error + week list" where
  "week_loop cursor end_date week_index events weeks =
     (if date_le cursor end_date then
        (case add_days cursor 6 of
           Inl e \<Rightarrow> Inl e
         | Inr c6 \<Rightarrow>
             (case add_days (date_min c6 end_date) 1 of
                Inl e \<Rightarrow> Inl e
              | Inr next_cursor \<Rightarrow>
                  week_loop next_cursor end_date (week_index + 1) events
                    (weeks @ [(week_label_text week_index cursor (date_min c6 end_date), cursor,
                               date_min c6 end_date,
                               filter (in_week cursor (date_min c6 end_date)) events)])))
      else Inr weeks)"
  by pat_completeness auto
termination
proof (relation "measure (\<lambda>(cursor, end_date, week_index, events, weeks).
                    if date_le cursor end_date then Suc (days_left cursor) else 0)")
  show "wf (measure (\<lambda>(cursor, end_date, week_index, events, weeks).
                    if date_le cursor end_date then Suc (days_left cursor) else 0))"
    by simp
next
  fix cursor end_date :: date and week_index :: nat and events :: "TimelineEvent list"
    and weeks :: "week list" and c6 next_cursor :: date
  assume le: "date_le cursor end_date"
    and a6: "add_days cursor 6 = Inr c6"
    and a1: "add_days (date_min c6 end_date) 1 = Inr next_cursor"
  have dim: "days_in_month y m \<le> 31" for y m
    by (simp add: days_in_month_def)
  have step: "days_left d' < days_left d \<and> \<not> date_le d' d" if "next_day d = Inr d'" for d d'
  proof -
    have "day d < days_in_month (year d) (month d) \<Longrightarrow> day d < 31"
      using dim[of "year d" "month d"] by simp
    then show ?thesis using that
      by (auto simp: next_day_def days_left_def date_le_def split: if_splits)
  qed
  have steps: "days_left d' < days_left d" if "add_days d (Suc n) = Inr d'" for d d' n
    using that
  proof (induction n arbitrary: d)
    case 0
    then show ?case using step by (auto split: sum.splits)
  next
    case (Suc n)
    then obtain d1 where d1: "next_day d = Inr d1" and r: "add_days d1 (Suc n) = Inr d'"
      by (auto split: sum.splits)
    have "days_left d' < days_left d1" by (rule Suc.IH[OF r])
    then show ?case using step[OF d1] by simp
  qed
  have n1: "next_day (date_min c6 end_date) = Inr next_cursor"
    using a1 by (auto split: sum.splits)
  show "((next_cursor, end_date, week_index + 1, events,
          weeks @ [(week_label_text week_index cursor (date_min c6 end_date), cursor,
                    date_min c6 end_date,
                    filter (in_week cursor (date_min c6 end_date)) events)]),
         (cursor, end_date, week_index, events, weeks))
        \<in> measure (\<lambda>(cursor, end_date, week_index, events, weeks).
                    if date_le cursor end_date then Suc (days_left cursor) else 0)"
  proof (cases "date_le next_cursor end_date")
    case False
    then show ?thesis using le by simp
  next
    case True
    have "date_min c6 end_date = c6"
    proof (rule ccontr)
      assume "date_min c6 end_date \<noteq> c6"
      then have "date_min c6 end_date = end_date" by (simp add: date_min_def split: if_splits)
      then show False using step[OF n1] True by simp
    qed
    then have "days_left next_cursor < days_left c6" using step[OF n1] by simp
    moreover have "days_left c6 < days_left cursor"
      using steps[of cursor 5 c6] a6 by (simp add: numeral_eq_Suc)
    ultimately show ?thesis using le True by simp
  qed
qed

declare week_loop.simps [simp del]

definition week_ranges :: "date \<Rightarrow> date \<Rightarrow> TimelineEvent list \<Rightarrow> error + week list" where
  "week_ranges start stop events = week_loop start stop 1 events []"

text \<open>The components of a week, and the last day on which a week can still be completed.\<close>

definition w_label :: "week \<Rightarrow> string" where
  "w_label w = fst w"

definition w_start :: "week \<Rightarrow> date" where
  "w_start w = fst (snd w)"

definition w_end :: "week \<Rightarrow> date" where
  "w_end w = fst (snd (snd w))"

definition w_events :: "week \<Rightarrow> TimelineEvent list" where
  "w_events w = snd (snd (snd w))"

text \<open>
  The weeks the loop appends from a cursor on: each week starts at the cursor, ends six days
  later or at the end of the range, and the next one starts the day after.
\<close>

fun week_chain :: "date \<Rightarrow> date \<Rightarrow> nat \<Rightarrow> TimelineEvent list \<Rightarrow> week list \<Rightarrow> bool" where
  "week_chain c stop i evs [] = date_less stop c"
| "week_chain c stop i evs (w # ws) =
     (date_le c stop \<and>
      (case add_days c 6 of
         Inl e \<Rightarrow> False
       | Inr c6 \<Rightarrow>
           w = (week_label_text i c (date_min c6 stop), c, date_min c6 stop,
                filter (in_week c (date_min c6 stop)) evs) \<and>
           (case next_day (date_min c6 stop) of
              Inl e \<Rightarrow> False
            | Inr nx \<Rightarrow> week_chain nx stop (Suc i) evs ws)))"

subsection \<open>Collaborators and composition\<close>

text \<open>
  The collaborators are duck-typed. The weekly arc engine offers one of its methods (the
  five names and the three call shapes the engine tries are one function of the events and
  the bounds here), or only \<^verbatim>\<open>stitch\<close>, or neither. The stitcher and the auditor offer their
  method or not. A stitched value is a string or an object with \<^verbatim>\<open>hook\<close> and \<^verbatim>\<open>arc\<close>.
\<close>

datatype weekly_engine =
    WeekMethod "TimelineEvent list \<Rightarrow> date \<Rightarrow> date \<Rightarrow> arc_value"
  | WeekStitch "TimelineEvent list \<Rightarrow> arc_value"
  | WeekNone

datatype stitched = StitchText string | StitchObj string string

record engine =
  weekly_arc_engine :: weekly_engine
  narrative_stitcher :: "(TimelineEvent list \<Rightarrow> stitched) option"
  task_collaborator :: task_engine
  drift_auditor :: "(TimelineEvent list \<Rightarrow> string list) option"
  round_score :: "rat \<Rightarrow> rat"

record month_stats =
  event_count :: nat
  categories :: "(string \<times> nat) list"
  tag_totals :: "(string \<times> nat) list"
  sentiment_summary :: "(string \<times> nat) list"
  week_splits :: "(string \<times> string \<times> string \<times> nat) list"

record month_data =
  md_events :: "TimelineEvent list"
  md_stats :: month_stats

text \<open>
  \<^verbatim>\<open>week_splits[label] = ...\<close> on the insertion-ordered dictionary: a later week with the
  same label replaces the entry in place.
\<close>

definition put_split ::
  "string \<times> string \<times> string \<times> nat \<Rightarrow> (string \<times> string \<times> string \<times> nat) list
     \<Rightarrow> (string \<times> string \<times> string \<times> nat) list" where
  "put_split entry splits =
     (if fst entry \<in> set (map fst splits)
      then map (\<lambda>s. if fst s = fst entry then entry else s) splits
      else splits @ [entry])"

definition gather_month_events ::
  "iso_parser \<Rightarrow> date \<Rightarrow> date_arg option \<Rightarrow> date_arg option \<Rightarrow> store \<Rightarrow> error + month_data" where
  "gather_month_events fromiso now start_date end_date st =
     (case resolve_month_range fromiso now start_date end_date of
        Inl e \<Rightarrow> Inl e
      | Inr (start, stop) \<Rightarrow>
          (let events = fst (get_events None (Some (isoformat start)) (Some (isoformat stop))
                               None False st)
           in case week_ranges start stop events of
                Inl e \<Rightarrow> Inl e
              | Inr weeks \<Rightarrow>
                  Inr \<lparr>md_events = events,
                       md_stats =
                         \<lparr>event_count = length events,
                          categories =
                            fold (\<lambda>event. bump_count (if event_type event \<noteq> []
                                                       then event_type event
                                                       else ''uncategorized'')) events [],
                          tag_totals = count_tags events,
                          sentiment_summary =
                            fold (\<lambda>event. bump_count (if mood event \<noteq> [] then mood event
                                                       else ''neutral'')) events [],
                          week_splits =
                            fold (\<lambda>(label, w_start, w_end, week_events).
                                    put_split (label, isoformat w_start, isoformat w_end,
                                               length week_events))
                                 weeks []\<rparr>\<rparr>))"

definition call_weekly_arc_engine ::
  "engine \<Rightarrow> TimelineEvent list \<Rightarrow> date \<Rightarrow> date \<Rightarrow> arc_value" where
  "call_weekly_arc_engine eng events start stop =
     (case weekly_arc_engine eng of
        WeekMethod m \<Rightarrow> m events start stop
      | WeekStitch s \<Rightarrow> s events
      | WeekNone \<Rightarrow> ArcDict (Some \<lparr>hook = [], arc = [], turning_points = None\<rparr>))"

text \<open>\<^verbatim>\<open>events or ...\<close>: an argument that is \<^verbatim>\<open>None\<close> or the empty list is falsy.\<close>

definition given_events :: "TimelineEvent list option \<Rightarrow> bool" where
  "given_events events = (case events of None \<Rightarrow> False | Some evs \<Rightarrow> evs \<noteq> [])"

definition synthesize_weekly_arcs ::
  "iso_parser \<Rightarrow> engine \<Rightarrow> date \<Rightarrow> date_arg option \<Rightarrow> date_arg option
     \<Rightarrow> TimelineEvent list option \<Rightarrow> store \<Rightarrow> error + weekly_arc list" where
  "synthesize_weekly_arcs fromiso eng now start_date end_date events st =
     (case resolve_month_range fromiso now start_date end_date of
        Inl e \<Rightarrow> Inl e
      | Inr (start, stop) \<Rightarrow>
          (let month_events =
                 (if given_events events then the events
                  else fst (get_events None (Some (isoformat start)) (Some (isoformat stop))
                              None False st))
           in case week_ranges start stop month_events of
                Inl e \<Rightarrow> Inl e
              | Inr weeks \<Rightarrow>
                  Inr (map (\<lambda>(label, w_start, w_end, week_events).
                              \<lparr>week_label = label,
                               week_arc = call_weekly_arc_engine eng week_events w_start w_end\<rparr>)
                           weeks)))"

record month_narrative =
  mn_hook :: string
  mn_arc :: string
  mn_subplots :: "string list"
  mn_turning_points :: "string list"
  mn_climax :: string
  mn_resolution :: string

definition week_turning_points :: "weekly_arc \<Rightarrow> string list" where
  "week_turning_points week =
     (case week_arc week of
        ArcDict (Some n) \<Rightarrow>
          (case turning_points n of
             None \<Rightarrow> []
           | Some (TPList tps) \<Rightarrow> tps
           | Some (TPText t) \<Rightarrow> (if t \<noteq> [] then [t] else []))
      | ArcDict None \<Rightarrow> []
      | ArcOther \<Rightarrow> [])"

text \<open>The events \<^verbatim>\<open>generate_month_narrative\<close> stitches: its local \<^verbatim>\<open>month_events\<close>.\<close>

definition narrative_events ::
  "iso_parser \<Rightarrow> date \<Rightarrow> TimelineEvent list option \<Rightarrow> store \<Rightarrow> error + TimelineEvent list" where
  "narrative_events fromiso now events st =
     (if given_events events then Inr (the events)
      else (case gather_month_events fromiso now None None st of
              Inl e \<Rightarrow> Inl e
            | Inr md \<Rightarrow> Inr (md_events md)))"

definition generate_month_narrative ::
  "iso_parser \<Rightarrow> engine \<Rightarrow> date \<Rightarrow> TimelineEvent list option \<Rightarrow> weekly_arc list option
     \<Rightarrow> store \<Rightarrow> error + month_narrative" where
  "generate_month_narrative fromiso eng now events weekly_arcs st =
     (case narrative_events fromiso now events st of
        Inl e \<Rightarrow> Inl e
      | Inr month_events \<Rightarrow>
          (let stitched =
                 (case narrative_stitcher eng of
                    Some stitch \<Rightarrow> stitch month_events
                  | None \<Rightarrow> StitchText []);
               arcs = (case weekly_arcs of None \<Rightarrow> [] | Some ws \<Rightarrow> ws);
               subplots = concat (map week_motifs arcs);
               found = concat (map week_turning_points arcs);
               tps = (if found = []
                      then filter (\<lambda>t. t \<noteq> []) (map title (take 3 month_events))
                      else found)
           in Inr \<lparr>mn_hook = (case stitched of StitchText s \<Rightarrow> s | StitchObj h a \<Rightarrow> h),
                   mn_arc = (case stitched of StitchText s \<Rightarrow> s | StitchObj h a \<Rightarrow> a),
                   mn_subplots = subplots,
                   mn_turning_points = tps,
                   mn_climax = (case tps of [] \<Rightarrow> [] | t # ts \<Rightarrow> t),
                   mn_resolution = ''Trajectory set for next month.''\<rparr>))"

record drift_report =
  issues :: "string list"
  severity :: string
  drift_notes :: string

text \<open>The events \<^verbatim>\<open>run_monthly_drift_audit\<close> audits: its local \<^verbatim>\<open>month_events\<close>.\<close>

definition audit_events :: "TimelineEvent list option \<Rightarrow> store \<Rightarrow> TimelineEvent list" where
  "audit_events events st =
     (if given_events events then the events
      else fst (get_events None None None None True st))"

definition run_monthly_drift_audit ::
  "engine \<Rightarrow> TimelineEvent list option \<Rightarrow> store \<Rightarrow> drift_report" where
  "run_monthly_drift_audit eng events st =
     (let month_events = audit_events events st;
          found = (case drift_auditor eng of Some audit \<Rightarrow> audit month_events | None \<Rightarrow> [])
      in \<lparr>issues = found,
          severity = (if length found > 5 then ''high''
                      else if length found > 0 then ''medium'' else ''low''),
          drift_notes = (if found = [] then ''No drift detected.''
                   else show_nat (length found) @ '' drift signals detected.'')\<rparr>)"

record month_arc =
  ma_time_window :: string
  ma_events :: month_data
  ma_tasks :: task_summary
  ma_weekly_arcs :: "weekly_arc list"
  ma_narrative :: month_narrative
  ma_themes :: "string list"
  ma_epics :: "epic_record list"
  ma_drift :: drift_report

definition construct_month_arc ::
  "iso_parser \<Rightarrow> engine \<Rightarrow> date \<Rightarrow> date_arg option \<Rightarrow> date_arg option \<Rightarrow> store
     \<Rightarrow> error + month_arc" where
  "construct_month_arc fromiso eng now start_date end_date st =
     (case gather_month_events fromiso now start_date end_date st of
        Inl e \<Rightarrow> Inl e
      | Inr month_data \<Rightarrow>
          (let events = md_events month_data in
           case synthesize_weekly_arcs fromiso eng now start_date end_date (Some events) st of
             Inl e \<Rightarrow> Inl e
           | Inr weekly_arcs \<Rightarrow>
               (case generate_month_narrative fromiso eng now (Some events) (Some weekly_arcs) st of
                  Inl e \<Rightarrow> Inl e
                | Inr narr \<Rightarrow>
                    (case resolve_month_range fromiso now start_date end_date of
                       Inl e \<Rightarrow> Inl e
                     | Inr (start, stop) \<Rightarrow>
                         Inr \<lparr>ma_time_window = isoformat start @ '' to '' @ isoformat stop,
                              ma_events = month_data,
                              ma_tasks = summarize_month_tasks (round_score eng)
                                           (task_collaborator eng),
                              ma_weekly_arcs = weekly_arcs,
                              ma_narrative = narr,
                              ma_themes = infer_monthly_themes events weekly_arcs,
                              ma_epics = detect_epic_progression events,
                              ma_drift = run_monthly_drift_audit eng (Some events) st\<rparr>))))"

text \<open>The \<open>k\<close> low decimal digits of a number, most significant first.\<close>

fun digits :: "nat \<Rightarrow> nat \<Rightarrow> string" where
  "digits 0 n = []"
| "digits (Suc k) n = digits k (n div 10) @ [digit_char n]"


subsection \<open>Auxiliary notions for the composition\<close>

text \<open>
  The query \<^verbatim>\<open>gather_month_events\<close> and \<^verbatim>\<open>synthesize_weekly_arcs\<close> make for a resolved range:
  \<^verbatim>\<open>get_events(start_date=start.isoformat(), end_date=end.isoformat())\<close>.
\<close>

definition month_query :: "date \<Rightarrow> date \<Rightarrow> store \<Rightarrow> TimelineEvent list" where
  "month_query start stop st =
     fst (get_events None (Some (isoformat start)) (Some (isoformat stop)) None False st)"

text \<open>The record \<^verbatim>\<open>generate_month_narrative\<close> builds from the events it stitches.\<close>

definition narrated ::
  "engine \<Rightarrow> TimelineEvent list \<Rightarrow> weekly_arc list option \<Rightarrow> month_narrative" where
  "narrated eng month_events weekly_arcs =
     (let stitched =
            (case narrative_stitcher eng of
               Some stitch \<Rightarrow> stitch month_events
             | None \<Rightarrow> StitchText []);
          arcs = (case weekly_arcs of None \<Rightarrow> [] | Some ws \<Rightarrow> ws);
          subplots = concat (map week_motifs arcs);
          found = concat (map week_turning_points arcs);
          tps = (if found = []
                 then filter (\<lambda>t. t \<noteq> []) (map title (take 3 month_events))
                 else found)
      in \<lparr>mn_hook = (case stitched of StitchText s \<Rightarrow> s | StitchObj h a \<Rightarrow> h),
          mn_arc = (case stitched of StitchText s \<Rightarrow> s | StitchObj h a \<Rightarrow> a),
          mn_subplots = subplots,
          mn_turning_points = tps,
          mn_climax = (case tps of [] \<Rightarrow> [] | t # ts \<Rightarrow> t),
          mn_resolution = ''Trajectory set for next month.''\<rparr>)"

text \<open>The list \<^verbatim>\<open>synthesize_weekly_arcs\<close> builds from the weeks of the range.\<close>

definition arcs_of_weeks :: "engine \<Rightarrow> week list \<Rightarrow> weekly_arc list" where
  "arcs_of_weeks eng weeks =
     map (\<lambda>(label, w_start, w_end, week_events).
            \<lparr>week_label = label,
             week_arc = call_weekly_arc_engine eng week_events w_start w_end\<rparr>)
         weeks"
section \<open>Example data\<close>

text \<open>
  The parser of the examples. It reads the texts that \<^verbatim>\<open>isoformat()\<close> writes for a date and
  for a naive \<^verbatim>\<open>datetime\<close>, \<^verbatim>\<open>YYYY-MM-DD\<close>, \<^verbatim>\<open>YYYY-MM-DDxHH:MM:SS\<close> and
  \<^verbatim>\<open>YYYY-MM-DDxHH:MM:SS.ffffff\<close> with any separator \<^verbatim>\<open>x\<close>, to the date
  \<^verbatim>\<open>datetime.fromisoformat\<close> gives them, and refuses every other text (the library reads
  further forms).
\<close>

definition digit_val :: "char \<Rightarrow> nat option" where
  "digit_val c =
     (let n = (of_char c :: nat) in if 48 \<le> n \<and> n \<le> 57 then Some (n - 48) else None)"

fun parse_nat :: "nat \<Rightarrow> string \<Rightarrow> nat option" where
  "parse_nat acc [] = Some acc"
| "parse_nat acc (c # cs) =
     (case digit_val c of None \<Rightarrow> None | Some v \<Rightarrow> parse_nat (10 * acc + v) cs)"

definition ex_date_part :: "string \<Rightarrow> error + date" where
  "ex_date_part s =
     (if length s = 10 \<and> s ! 4 = CHR ''-'' \<and> s ! 7 = CHR ''-'' then
        (case (parse_nat 0 (take 4 s), parse_nat 0 (take 2 (drop 5 s)), parse_nat 0 (drop 8 s)) of
           (Some y, Some m, Some d) \<Rightarrow> mk_date y m d
         | _ \<Rightarrow> Inl ValueError)
      else Inl ValueError)"

definition ex_time_part :: "string \<Rightarrow> bool" where
  "ex_time_part s =
     ((length s = 8 \<or> length s = 15 \<and> s ! 8 = CHR ''.'') \<and> s ! 2 = CHR '':'' \<and> s ! 5 = CHR '':'' \<and>
      (case (parse_nat 0 (take 2 s), parse_nat 0 (take 2 (drop 3 s)),
             parse_nat 0 (take 2 (drop 6 s)), parse_nat 0 (drop 9 s)) of
         (Some h, Some m, Some sec, Some us) \<Rightarrow> h < 24 \<and> m < 60 \<and> sec < 60
       | _ \<Rightarrow> False))"

definition ex_fromiso :: iso_parser where
  "ex_fromiso s =
     (if length s = 10 then ex_date_part s
      else if 11 < length s \<and> ex_time_part (drop 11 s) then ex_date_part (take 10 s)
      else Inl ValueError)"

definition ex_old :: TimelineEvent where
  "ex_old = \<lparr>event_id = ''e1'', date = ''2025-03-01'', title = ''Old Detail'',
     event_type = ''note'', details = ''Wrong info'', tags = [], source = [],
     metadata = [], archived = False\<rparr>"

definition ex_new_year :: TimelineEvent where
  "ex_new_year = \<lparr>event_id = ''a1'', date = ''2024-01-01'', title = ''New Year'',
     event_type = ''milestone'', details = ''NY Day'', tags = [''holiday''], source = [],
     metadata = [], archived = False\<rparr>"

definition ex_tournament :: TimelineEvent where
  "ex_tournament = \<lparr>event_id = ''a2'', date = ''2024-06-10'', title = ''Tournament'',
     event_type = ''martial_arts'', details = ''BJJ comp'', tags = [''bjj''], source = [],
     metadata = [], archived = False\<rparr>"

definition ex_christmas :: TimelineEvent where
  "ex_christmas = \<lparr>event_id = ''a3'', date = ''2024-12-25'', title = ''Christmas'',
     event_type = ''holiday'', details = ''Xmas'', tags = [''holiday''], source = [],
     metadata = [], archived = False\<rparr>"


definition ex_fix :: TimelineEvent where
  "ex_fix = \<lparr>event_id = ''e2'', date = ''2025-03-01'', title = ''Correct Detail'',
     event_type = ''note'', details = ''Fixed info'', tags = [''correction''], source = [],
     metadata = [(''sentiment'', ''calm'')], archived = False\<rparr>"



definition ex_accessor_engine :: task_engine where
  "ex_accessor_engine = \<lparr>summarize_month = None, get_completed_tasks = Some [''t1''],
     get_overdue_tasks = None, get_overdue = None, get_new_tasks = None,
     get_priority_tasks = None, get_priority = None, weekly_breakdown = None,
     breakdown_by_week = None\<rparr>"

definition ex_sprint :: TimelineEvent where
  "ex_sprint = \<lparr>event_id = ''m2'', date = ''2024-01-08'', title = ''Robotics sprint'',
     event_type = ''work'', details = [], tags = [''robotics'', ''omega1''], source = [],
     metadata = [(''sentiment'', ''focused'')], archived = False\<rparr>"

definition ex_now :: date where
  "ex_now = \<lparr>year = 2024, month = 12, day = 15\<rparr>"

definition ex_jan1 :: date where
  "ex_jan1 = \<lparr>year = 2024, month = 1, day = 1\<rparr>"

definition ex_jan9 :: date where
  "ex_jan9 = \<lparr>year = 2024, month = 1, day = 9\<rparr>"

definition ex_last_day :: date where
  "ex_last_day = \<lparr>year = 9999, month = 12, day = 31\<rparr>"

definition ex_engine :: engine where
  "ex_engine = \<lparr>weekly_arc_engine = WeekNone,
     narrative_stitcher = Some (\<lambda>evs. StitchText (join '', '' (map title evs))),
     task_collaborator = ex_accessor_engine,
     drift_auditor = Some (map title),
     round_score = (\<lambda>x. x)\<rparr>"

definition ex_timeline :: store where
  "ex_timeline = [(2024, [ex_tournament, ex_christmas])]"

definition ex_dec1 :: date where
  "ex_dec1 = \<lparr>year = 2024, month = 12, day = 1\<rparr>"

definition ex_dec31 :: date where
  "ex_dec31 = \<lparr>year = 2024, month = 12, day = 31\<rparr>"

section \<open>The store: helper facts\<close>


lemma mark_idem [simp]: "mark eid (mark eid x) = mark eid x"
  by (simp add: mark_def)

lemma mark_id [simp]: "event_id (mark eid x) = event_id x"
  by (simp add: mark_def)

lemma archive_scan_eq:
  "archive_scan eid items updated ae =
     (updated @ map (mark eid) items,
      (case filter (\<lambda>e. event_id e = eid) items of [] \<Rightarrow> ae
       | m # ms \<Rightarrow> Some (mark eid (last (m # ms)))))"
proof (induction items arbitrary: updated ae)
  case Nil
  then show ?case by simp
next
  case (Cons item items)
  show ?case
  proof (cases "event_id item = eid")
    case True
    have "(if \<not> archived item then item\<lparr>archived := True\<rparr> else item) = mark eid item"
      using True by (simp add: mark_def)
    then show ?thesis using True Cons.IH
      by (simp add: Let_def split: list.splits)
  next
    case False
    then show ?thesis using Cons.IH by (simp add: mark_def)
  qed
qed

lemma load_raw_year_key:
  "yr \<in> fst ` set st \<Longrightarrow> load_raw_year yr st = (shard st yr, st)"
  by (auto simp: load_raw_year_def shard_def map_of_eq_None_iff split: option.splits)

lemma archive_loop_eq:
  "set yrs \<subseteq> fst ` set st \<Longrightarrow>
   archive_loop eid yrs st =
     (case find (has_id eid st) yrs of
        None \<Rightarrow> (None, st)
      | Some yr \<Rightarrow>
          (Some (mark eid (last (filter (\<lambda>e. event_id e = eid) (shard st yr)))),
           save_year yr (map (mark eid) (shard st yr)) st))"
proof (induction yrs)
  case Nil
  then show ?case by simp
next
  case (Cons yr yrs)
  then have k: "yr \<in> fst ` set st" and r: "set yrs \<subseteq> fst ` set st" by auto
  show ?case
  proof (cases "has_id eid st yr")
    case True
    then have "filter (\<lambda>e. event_id e = eid) (shard st yr) \<noteq> []"
      by (auto simp: has_id_def filter_empty_conv)
    then obtain m ms where f: "filter (\<lambda>e. event_id e = eid) (shard st yr) = m # ms"
      by (cases "filter (\<lambda>e. event_id e = eid) (shard st yr)") auto
    show ?thesis using True f
      by (simp add: load_raw_year_key[OF k] archive_scan_eq)
  next
    case False
    then have f: "filter (\<lambda>e. event_id e = eid) (shard st yr) = []"
      by (auto simp: has_id_def filter_empty_conv)
    show ?thesis using False f Cons.IH[OF r]
      by (simp add: load_raw_year_key[OF k] archive_scan_eq)
  qed
qed

lemma keys_save_year: "yr \<in> fst ` set st \<Longrightarrow> map fst (save_year yr evs st) = map fst st"
  by (auto simp: save_year_def split: prod.splits)

lemma map_of_save_year:
  "map_of (save_year yr evs st) y = (if y = yr then Some evs else map_of st y)"
proof (cases "yr \<in> fst ` set st")
  case True
  have "map_of (map (\<lambda>(k, v). if k = yr then (k, evs) else (k, v)) st) y
          = (if y = yr then (if yr \<in> fst ` set st then Some evs else None) else map_of st y)"
    by (induction st) (force split: prod.splits)+
  then show ?thesis using True by (simp add: save_year_def)
next
  case False
  then have "map_of st yr = None" by (simp add: map_of_eq_None_iff)
  then show ?thesis using False
    by (auto simp: save_year_def map_add_def split: option.splits)
qed

lemma shard_save_year: "shard (save_year yr evs st) y = (if y = yr then evs else shard st y)"
  by (simp add: shard_def map_of_save_year)

lemma archive_event_eq:
  "archive_event eid st =
     (case find (has_id eid st) (map fst st) of
        None \<Rightarrow> (None, st)
      | Some yr \<Rightarrow>
          (Some (mark eid (last (filter (\<lambda>e. event_id e = eid) (shard st yr)))),
           save_year yr (map (mark eid) (shard st yr)) st))"
  unfolding archive_event_def by (rule archive_loop_eq) simp

lemma has_id_save_mark:
  "has_id eid (save_year yr (map (mark eid) (shard st yr)) st) = has_id eid st"
  by (rule ext) (auto simp: has_id_def shard_save_year)

lemma save_year_twice:
  "yr \<in> fst ` set st \<Longrightarrow> save_year yr evs (save_year yr evs0 st) = save_year yr evs st"
proof -
  assume k: "yr \<in> fst ` set st"
  have "set (map fst (save_year yr evs0 st)) = set (map fst st)"
    using keys_save_year[OF k, of evs0] by simp
  then have k': "yr \<in> fst ` set (save_year yr evs0 st)" using k by simp
  have e0: "save_year yr evs0 st = map (\<lambda>(k, v). if k = yr then (k, evs0) else (k, v)) st"
    using k by (simp add: save_year_def)
  have "save_year yr evs (save_year yr evs0 st)
          = map (\<lambda>(k, v). if k = yr then (k, evs) else (k, v)) (save_year yr evs0 st)"
    using k' by (simp add: save_year_def)
  also have "\<dots> = map (\<lambda>(k, v). if k = yr then (k, evs) else (k, v)) st"
    unfolding e0 by auto
  also have "\<dots> = save_year yr evs st"
    using k by (simp add: save_year_def)
  finally show ?thesis .
qed

lemma find_key: "find P xs = Some x \<Longrightarrow> x \<in> set xs \<and> P x"
  by (induction xs) (auto split: if_splits)

lemma last_filter_mark:
  "filter (\<lambda>e. event_id e = eid) xs \<noteq> [] \<Longrightarrow>
   last (filter (\<lambda>e. event_id e = eid) (map (mark eid) xs))
     = mark eid (last (filter (\<lambda>e. event_id e = eid) xs))"
proof -
  assume ne: "filter (\<lambda>e. event_id e = eid) xs \<noteq> []"
  have "filter (\<lambda>e. event_id e = eid) (map (mark eid) xs)
          = map (mark eid) (filter (\<lambda>e. event_id e = eid) xs)"
    by (induction xs) auto
  then show ?thesis using ne by (simp add: last_map)
qed

lemma archive_event_found:
  assumes "map_of st yr = Some evs" "e \<in> set evs" "event_id e = eid"
  shows "\<exists>y. find (has_id eid st) (map fst st) = Some y"
proof -
  have "yr \<in> set (map fst st)" using assms(1) by (auto dest: map_of_SomeD intro: rev_image_eqI)
  moreover have "has_id eid st yr" using assms by (auto simp: has_id_def shard_def)
  ultimately show ?thesis by (cases "find (has_id eid st) (map fst st)") (auto simp: find_None_iff)
qed



lemma load_year_shard: "fst (load_year yr st) = shard st yr"
  by (simp add: load_year_def load_raw_year_def shard_def split: option.splits)

lemma load_all_eq:
  "set yrs \<subseteq> fst ` set st \<Longrightarrow> load_all yrs st = (concat (map (shard st) yrs), st)"
  by (induction yrs) (auto simp: load_year_def load_raw_year_key)

lemma in_range_conj:
  "in_range sd ed tgs ia =
     (\<lambda>e. (\<not> ia \<longrightarrow> \<not> archived e) \<and>
      (tgs \<noteq> [] \<longrightarrow> set tgs \<inter> set (tags e) \<noteq> {}) \<and>
      (\<forall>s. sd = Some s \<and> s \<noteq> [] \<longrightarrow> s \<le> date e) \<and>
      (\<forall>s. ed = Some s \<and> s \<noteq> [] \<longrightarrow> date e \<le> s))"
  by (rule ext) (auto simp: in_range_def filter_empty_conv split: option.splits)


lemma get_events_all_store: "snd (get_events None sd ed tgs ia st) = st"
  by (simp add: get_events_def load_all_eq sorted_years_def split_beta Let_def)

lemma get_events_filter:
  "fst (get_events yr sd ed tgs ia st) =
     filter (\<lambda>e. (\<not> ia \<longrightarrow> \<not> archived e) \<and>
                 (\<forall>ts. tgs = Some ts \<and> ts \<noteq> [] \<longrightarrow> set ts \<inter> set (tags e) \<noteq> {}) \<and>
                 (\<forall>s. sd = Some s \<and> s \<noteq> [] \<longrightarrow> s \<le> date e) \<and>
                 (\<forall>s. ed = Some s \<and> s \<noteq> [] \<longrightarrow> date e \<le> s))
       (candidates yr st)"
proof -
  have c: "fst (case yr of Some y \<Rightarrow> load_year y st | None \<Rightarrow> load_all (sorted_years st) st)
             = candidates yr st"
    by (cases yr) (simp_all add: candidates_def load_year_shard load_all_eq sorted_years_def)
  show ?thesis
    unfolding get_events_def Let_def
    by (cases tgs) (simp_all add: split_beta c in_range_conj)
qed

subsection \<open>Effects of the operations on the rows\<close>













































section \<open>Aggregation: helper facts\<close>

lemma efficiency_accessors:
  "summarize_month te = None \<Longrightarrow> efficiency_score (summarize_month_tasks round2 te) = Some 0"
  by (simp add: summarize_month_tasks_def Let_def split: option.splits)

lemma group_of_Nil: "group_of [] k = []"
  by (simp add: group_of_def)

lemma first_seen_Nil [simp]: "first_seen [] = []"
  by (simp add: first_seen_def)

lemma first_seen_Cons: "first_seen (k # ks) = k # filter (\<lambda>x. x \<noteq> k) (first_seen ks)"
proof -
  have "remdups (ys @ [k]) = filter (\<lambda>x. x \<noteq> k) (remdups ys) @ [k]" for ys :: "string list"
    by (induction ys) auto
  then show ?thesis by (simp add: first_seen_def rev_filter)
qed

lemma keys_append_group:
  "map fst (append_group k e gs) = (if k \<in> set (map fst gs) then map fst gs else map fst gs @ [k])"
  by (auto simp: append_group_def split: prod.splits)

lemma map_of_append_group:
  "map_of (append_group k e gs) x
     = (if x = k then Some (group_of gs k @ [e]) else map_of gs x)"
proof (cases "k \<in> set (map fst gs)")
  case True
  have "map_of (map (\<lambda>(a, g). if a = k then (a, g @ [e]) else (a, g)) gs) x
          = (if x = k then map_option (\<lambda>g. g @ [e]) (map_of gs k) else map_of gs x)"
    by (induction gs) (auto split: prod.splits)
  moreover obtain g where "map_of gs k = Some g"
    using True by (cases "map_of gs k") (auto simp: map_of_eq_None_iff)
  ultimately show ?thesis using True by (simp add: append_group_def group_of_def)
next
  case False
  then have "map_of gs k = None" by (simp add: map_of_eq_None_iff)
  then show ?thesis using False
    by (auto simp: append_group_def group_of_def map_add_def split: option.splits)
qed

lemma group_of_append_group:
  "group_of (append_group k e gs) x = (if x = k then group_of gs k @ [e] else group_of gs x)"
  by (simp add: group_of_def map_of_append_group)

lemma group_event_fold:
  "group_event e gs = fold (\<lambda>k gs. append_group k e gs) (epics_of e) gs"
proof -
  have "fold (\<lambda>tag gs. case map_of epic_tags tag of None \<Rightarrow> gs
                        | Some epic_key \<Rightarrow> append_group epic_key e gs) ts gs
          = fold (\<lambda>k gs. append_group k e gs)
              (concat (map (\<lambda>t. case map_of epic_tags t of None \<Rightarrow> [] | Some k \<Rightarrow> [k]) ts)) gs"
    for ts
    by (induction ts arbitrary: gs) (auto split: option.splits)
  then show ?thesis by (simp add: group_event_def epics_of_def)
qed

lemma fold_pairs_keys:
  "map fst (fold (\<lambda>(k, e) gs. append_group k e gs) ps gs)
     = map fst gs @ filter (\<lambda>x. x \<notin> set (map fst gs)) (first_seen (map fst ps))"
proof (induction ps arbitrary: gs)
  case Nil
  then show ?case by simp
next
  case (Cons p ps)
  obtain k e where p: "p = (k, e)" by (cases p)
  show ?case
  proof (cases "k \<in> set (map fst gs)")
    case True
    then have "filter (\<lambda>x. x \<notin> set (map fst gs)) (filter (\<lambda>x. x \<noteq> k) (first_seen (map fst ps)))
                 = filter (\<lambda>x. x \<notin> set (map fst gs)) (first_seen (map fst ps))"
      by (auto intro!: filter_cong)
    then show ?thesis using True
      by (simp add: p Cons.IH keys_append_group first_seen_Cons del: set_map)
  next
    case False
    have "filter (\<lambda>x. x \<notin> set (map fst gs @ [k])) (first_seen (map fst ps))
            = filter (\<lambda>x. x \<notin> set (map fst gs)) (filter (\<lambda>x. x \<noteq> k) (first_seen (map fst ps)))"
      by (auto intro!: filter_cong)
    then show ?thesis using False
      by (simp add: p Cons.IH keys_append_group first_seen_Cons del: set_map)
  qed
qed

lemma fold_pairs_group:
  "group_of (fold (\<lambda>(k, e) gs. append_group k e gs) ps gs) x
     = group_of gs x @ map snd (filter (\<lambda>p. fst p = x) ps)"
proof (induction ps arbitrary: gs)
  case Nil
  then show ?case by simp
next
  case (Cons p ps)
  obtain k e where p: "p = (k, e)" by (cases p)
  show ?case by (simp add: p Cons.IH group_of_append_group)
qed

lemma epic_events_pairs:
  "fold group_event events gs = fold (\<lambda>(k, e) gs. append_group k e gs) (epic_pairs events) gs"
proof (induction events arbitrary: gs)
  case Nil
  then show ?case by (simp add: epic_pairs_def)
next
  case (Cons e events)
  have "fold (\<lambda>k gs. append_group k e gs) ks gs
          = fold (\<lambda>(k, e) gs. append_group k e gs) (map (\<lambda>k. (k, e)) ks) gs" for ks
    by (simp add: fold_map comp_def)
  then show ?case using Cons.IH by (simp add: epic_pairs_def group_event_fold)
qed

lemma fst_epic_pairs: "map fst (epic_pairs events) = concat (map epics_of events)"
  by (simp add: epic_pairs_def map_concat comp_def)

lemma count_epics_of:
  "length (filter (\<lambda>k. k = x) (epics_of e))
     = length (filter (\<lambda>t. map_of epic_tags t = Some x) (tags e))"
proof -
  have "length (filter (\<lambda>k. k = x)
           (concat (map (\<lambda>t. case map_of epic_tags t of None \<Rightarrow> [] | Some k \<Rightarrow> [k]) ts)))
          = length (filter (\<lambda>t. map_of epic_tags t = Some x) ts)" for ts
    by (induction ts) (auto split: option.splits)
  then show ?thesis by (simp add: epics_of_def)
qed

lemma snd_epic_pairs:
  "map snd (filter (\<lambda>p. fst p = x) (epic_pairs events)) = epic_group x events"
proof (induction events)
  case Nil
  then show ?case by (simp add: epic_pairs_def epic_group_def)
next
  case (Cons e events)
  have "map snd (filter (\<lambda>p. fst p = x) (map (\<lambda>k. (k, e)) ks))
          = replicate (length (filter (\<lambda>k. k = x) ks)) e" for ks
    by (induction ks) auto
  then show ?case using Cons.IH
    by (simp add: epic_pairs_def epic_group_def count_epics_of)
qed

lemma distinct_first_seen: "distinct (first_seen ks)"
  by (simp add: first_seen_def)

lemma assoc_by_keys:
  "distinct (map fst gs) \<Longrightarrow> gs = map (\<lambda>k. (k, group_of gs k)) (map fst gs)"
proof -
  assume d: "distinct (map fst gs)"
  have "\<forall>p \<in> set gs. group_of gs (fst p) = snd p"
    using d by (auto simp: group_of_def)
  then have "map (\<lambda>p. (fst p, group_of gs (fst p))) gs = gs"
    by (intro map_idI) auto
  then show ?thesis by (simp add: comp_def)
qed

lemma epic_events_eq:
  "epic_events events = map (\<lambda>k. (k, epic_group k events)) (epic_order events)"
proof -
  define gs where "gs = epic_events events"
  have k: "map fst gs = epic_order events"
    by (simp add: gs_def epic_events_def epic_events_pairs fold_pairs_keys fst_epic_pairs
        epic_order_def first_seen_def)
  have g: "group_of gs x = epic_group x events" for x
    by (simp add: gs_def epic_events_def epic_events_pairs fold_pairs_group snd_epic_pairs
        group_of_Nil)
  have "distinct (map fst gs)" unfolding k by (simp add: epic_order_def)
  then have "gs = map (\<lambda>k. (k, group_of gs k)) (map fst gs)" by (rule assoc_by_keys)
  then show ?thesis by (simp add: k g gs_def[symmetric])
qed

lemma detect_epic_progression_eq:
  "detect_epic_progression events =
     map (\<lambda>k. \<lparr>epic = k,
                progress = show_nat (length (epic_group k events)) @ '' updates recorded.'',
                milestones = filter (\<lambda>t. t \<noteq> []) (map title (epic_group k events))\<rparr>)
         (epic_order events)"
  by (simp add: detect_epic_progression_def epic_events_eq comp_def)

lemma ex_epic: "detect_epic_progression [ex_sprint] =
  [\<lparr>epic = ''Robotics: Omega-1'', progress = ''2 updates recorded.'',
    milestones = [''Robotics sprint'', ''Robotics sprint'']\<rparr>]"
  by code_simp

lemma fold_bump_fresh:
  "distinct ts \<Longrightarrow> set ts \<inter> set (map fst tc) = {} \<Longrightarrow>
   fold bump_count ts tc = tc @ map (\<lambda>t. (t, 1)) ts"
proof (induction ts arbitrary: tc)
  case Nil
  then show ?case by simp
next
  case (Cons t ts)
  have b: "bump_count t tc = tc @ [(t, 1)]" using Cons.prems by (simp add: bump_count_def)
  have "fold bump_count ts (tc @ [(t, 1)]) = (tc @ [(t, 1)]) @ map (\<lambda>t. (t, 1)) ts"
    using Cons.prems by (intro Cons.IH) auto
  then show ?case by (simp add: b)
qed

lemma count_tags_fold: "count_tags events = fold bump_count (concat (map tags events)) []"
proof -
  have "fold (\<lambda>event tc. fold bump_count (tags event) tc) events tc
          = fold bump_count (concat (map tags events)) tc" for tc
    by (induction events arbitrary: tc) auto
  then show ?thesis by (simp add: count_tags_def)
qed

lemma count_tags_distinct:
  "distinct (concat (map tags events)) \<Longrightarrow>
   count_tags events = map (\<lambda>t. (t, 1)) (concat (map tags events))"
  using fold_bump_fresh[of "concat (map tags events)" "[]"] by (simp add: count_tags_fold)

lemma trending_all_once:
  assumes "ts \<noteq> []"
  shows "trending_tags (map (\<lambda>t. (t, 1)) ts) = take 3 ts"
proof -
  let ?tc = "map (\<lambda>t. (t, 1::nat)) ts"
  have f: "filter (\<lambda>(t, c). c > 1) ?tc = []" by (simp add: filter_empty_conv)
  have "map (\<lambda>(t, c). - int c) ?tc = replicate (length ts) (- 1)"
    by (simp add: comp_def map_replicate_const)
  then have "sorted (map (\<lambda>(t, c). - int c) ?tc)" by (simp add: sorted_replicate)
  then have s: "sort_key (\<lambda>(t, c). - int c) ?tc = ?tc" by (rule sort_key_id_if_sorted)
  have m: "map fst ?tc = ts" by (simp add: comp_def)
  show ?thesis using assms unfolding trending_tags_def Let_def f s by (simp add: comp_def)
qed

lemma themes_first_line:
  assumes d: "distinct (concat (map tags events))" and ne: "concat (map tags events) \<noteq> []"
  shows "trending_tags (count_tags events) = take 3 (concat (map tags events))"
    and "hd (infer_monthly_themes events weekly_arcs)
           = ''Trending tags: '' @ join '', '' (sort (take 3 (concat (map tags events))))"
proof -
  show t: "trending_tags (count_tags events) = take 3 (concat (map tags events))"
    by (simp only: count_tags_distinct[OF d] trending_all_once[OF ne])
  have "take 3 (concat (map tags events)) \<noteq> []" using ne by simp
  then show "hd (infer_monthly_themes events weekly_arcs)
           = ''Trending tags: '' @ join '', '' (sort (take 3 (concat (map tags events))))"
    unfolding infer_monthly_themes_def Let_def t by simp
qed

lemma count_epic_group:
  "count_list (epic_group k events) e
     = count_list events e * length (filter (\<lambda>t. map_of epic_tags t = Some k) (tags e))"
proof -
  have r: "count_list (replicate n x) e = (if x = e then n else 0)" for n and x :: TimelineEvent
    by (induction n) auto
  show ?thesis
    by (induction events) (auto simp: epic_group_def r)
qed

section \<open>Dates and ranges: helper facts\<close>

lemma date_eqI: "year a = year b \<Longrightarrow> month a = month b \<Longrightarrow> day a = day b \<Longrightarrow> a = (b :: date)"
  by (cases a, cases b) simp

lemma date_le_refl: "date_le a a"
  by (simp add: date_le_def)

lemma date_le_trans: "date_le a b \<Longrightarrow> date_le b c \<Longrightarrow> date_le a c"
  by (auto simp: date_le_def)

lemma date_le_antisym: "date_le a b \<Longrightarrow> date_le b a \<Longrightarrow> a = b"
  by (rule date_eqI) (auto simp: date_le_def)

lemma date_le_total: "date_le a b \<or> date_le b a"
  by (auto simp: date_le_def)

lemma date_less_iff: "date_less a b \<longleftrightarrow> \<not> date_le b a"
  using date_le_antisym[of a b] date_le_total[of a b] by (auto simp: date_less_def date_le_refl)

lemma next_day_gt: "next_day d = Inr d' \<Longrightarrow> \<not> date_le d' d"
proof -
  assume a: "next_day d = Inr d'"
  show ?thesis
  proof (cases "day d < days_in_month (year d) (month d)")
    case True
    then have "d' = d\<lparr>day := day d + 1\<rparr>" using a by (simp add: next_day_def)
    then show ?thesis by (simp add: date_le_def)
  next
    case False
    show ?thesis
    proof (cases "month d < 12")
      case True
      then have "d' = d\<lparr>month := month d + 1, day := 1\<rparr>" using a False by (simp add: next_day_def)
      then show ?thesis by (simp add: date_le_def)
    next
      case m: False
      show ?thesis
      proof (cases "year d < 9999")
        case True
        then have "d' = \<lparr>year = year d + 1, month = 1, day = 1\<rparr>"
          using a False m by (simp add: next_day_def)
        then show ?thesis by (simp add: date_le_def)
      next
        case y: False
        then show ?thesis using a False m by (simp add: next_day_def)
      qed
    qed
  qed
qed

lemma prev_day_gt: "prev_day d = Inr d' \<Longrightarrow> \<not> date_le d d'"
proof -
  assume a: "prev_day d = Inr d'"
  show ?thesis
  proof (cases "1 < day d")
    case True
    then have "d' = d\<lparr>day := day d - 1\<rparr>" using a by (simp add: prev_day_def)
    then show ?thesis using True by (simp add: date_le_def)
  next
    case False
    show ?thesis
    proof (cases "1 < month d")
      case True
      then have "d' = d\<lparr>month := month d - 1, day := days_in_month (year d) (month d - 1)\<rparr>"
        using a False by (simp add: prev_day_def)
      then have "year d' = year d" "month d' = month d - 1" by simp_all
      then show ?thesis using True unfolding date_le_def by arith
    next
      case m: False
      show ?thesis
      proof (cases "1 < year d")
        case True
        then have "d' = \<lparr>year = year d - 1, month = 12, day = 31\<rparr>"
          using a False m by (simp add: prev_day_def)
        then have "year d' = year d - 1" by simp
        then show ?thesis using True unfolding date_le_def by arith
      next
        case y: False
        then show ?thesis using a False m by (simp add: prev_day_def)
      qed
    qed
  qed
qed

lemma next_day_less: "next_day d = Inr d' \<Longrightarrow> date_less d d'"
  by (simp add: date_less_iff next_day_gt)

lemma prev_day_less: "prev_day d = Inr d' \<Longrightarrow> date_less d' d"
  by (simp add: date_less_iff prev_day_gt)

lemma date_less_le: "date_less a b \<Longrightarrow> date_le a b"
  by (simp add: date_less_def)

lemma add_days_le: "add_days d n = Inr d' \<Longrightarrow> date_le d d'"
proof (induction n arbitrary: d)
  case 0
  then show ?case by (simp add: date_le_refl)
next
  case (Suc n)
  then obtain d1 where d1: "next_day d = Inr d1" and r: "add_days d1 n = Inr d'"
    by (auto split: sum.splits)
  show ?case
    by (rule date_le_trans[OF date_less_le[OF next_day_less[OF d1]] Suc.IH[OF r]])
qed

lemma sub_days_le: "sub_days d n = Inr d' \<Longrightarrow> date_le d' d"
proof (induction n arbitrary: d)
  case 0
  then show ?case by (simp add: date_le_refl)
next
  case (Suc n)
  then obtain d1 where d1: "prev_day d = Inr d1" and r: "sub_days d1 n = Inr d'"
    by (auto split: sum.splits)
  show ?case
    by (rule date_le_trans[OF Suc.IH[OF r] date_less_le[OF prev_day_less[OF d1]]])
qed

lemma swap_if_after_le: "date_le s t \<Longrightarrow> swap_if_after s t = (s, t)"
  by (simp add: swap_if_after_def date_less_iff)

lemma month_range_default:
  assumes v: "valid_date now" and b: "year now < 9999 \<or> month now < 12"
  shows "resolve_month_range fromiso now None None
           = Inr (\<lparr>year = year now, month = month now, day = 1\<rparr>,
                  \<lparr>year = year now, month = month now,
                   day = days_in_month (year now) (month now)\<rparr>)"
proof -
  have dim: "1 \<le> days_in_month y m" for y m by (simp add: days_in_month_def)
  have s: "mk_date (year now) (month now) 1 = Inr \<lparr>year = year now, month = month now, day = 1\<rparr>"
    using v dim[of "year now" "month now"] by (simp add: mk_date_def valid_date_def)
  show ?thesis
  proof (cases "month now = 12")
    case True
    then have y: "year now < 9999" using b by simp
    have n: "mk_date (year now + 1) 1 1 = Inr \<lparr>year = year now + 1, month = 1, day = 1\<rparr>"
      using v y by (simp add: mk_date_def valid_date_def days_in_month_def)
    have p: "sub_days \<lparr>year = year now + 1, month = 1, day = 1\<rparr> 1
               = Inr \<lparr>year = year now, month = 12, day = 31\<rparr>"
      using v by (simp add: prev_day_def valid_date_def)
    show ?thesis using True s n p
      by (simp add: resolve_month_range_def days_in_month_def)
  next
    case False
    then have m: "month now < 12" using v by (simp add: valid_date_def)
    have n: "mk_date (year now) (month now + 1) 1
               = Inr \<lparr>year = year now, month = month now + 1, day = 1\<rparr>"
      using v m dim[of "year now" "month now + 1"] by (simp add: mk_date_def valid_date_def)
    have p: "sub_days \<lparr>year = year now, month = month now + 1, day = 1\<rparr> 1
               = Inr \<lparr>year = year now, month = month now,
                      day = days_in_month (year now) (month now)\<rparr>"
      using v by (simp add: prev_day_def valid_date_def)
    show ?thesis using False s n p
      by (simp add: resolve_month_range_def)
  qed
qed

lemma normalize_if_given_truthy:
  "truthy a \<Longrightarrow> normalize_date fromiso now a = Inr s \<Longrightarrow> normalize_if_given fromiso now a = Inr (Some s)"
  by (simp add: normalize_if_given_def)

lemma normalize_if_given_falsy: "\<not> truthy a \<Longrightarrow> normalize_if_given fromiso now a = Inr None"
  by (simp add: normalize_if_given_def)

lemma truthy_not_None: "truthy a \<Longrightarrow> a \<noteq> None"
  by (cases a) (simp_all add: truthy_def)

lemma month_range_given:
  "a \<noteq> None \<or> b \<noteq> None \<Longrightarrow>
   resolve_month_range fromiso now a b =
     (case normalize_if_given fromiso now a of
        Inl e \<Rightarrow> Inl e
      | Inr start \<Rightarrow>
          (case normalize_if_given fromiso now b of
             Inl e \<Rightarrow> Inl e
           | Inr stop \<Rightarrow>
               (case (start, stop) of
                  (Some s, None) \<Rightarrow>
                    (case add_days s 30 of Inl e \<Rightarrow> Inl e | Inr t \<Rightarrow> Inr (swap_if_after s t))
                | (None, Some t) \<Rightarrow>
                    (case sub_days t 30 of Inl e \<Rightarrow> Inl e | Inr s \<Rightarrow> Inr (swap_if_after s t))
                | (None, None) \<Rightarrow>
                    (case sub_days now 30 of Inl e \<Rightarrow> Inl e | Inr s \<Rightarrow> Inr (s, now))
                | (Some s, Some t) \<Rightarrow> Inr (swap_if_after s t))))"
proof -
  assume "a \<noteq> None \<or> b \<noteq> None"
  then have "\<not> (a = None \<and> b = None)" by blast
  then show ?thesis unfolding resolve_month_range_def by (simp only: if_False)
qed

lemma month_range_start_only:
  assumes "truthy a" "\<not> truthy b" "normalize_date fromiso now a = Inr s" "add_days s 30 = Inr t"
  shows "resolve_month_range fromiso now a b = Inr (s, t)"
  using assms truthy_not_None[OF assms(1)]
  by (simp add: month_range_given normalize_if_given_truthy normalize_if_given_falsy
      swap_if_after_le[OF add_days_le[OF assms(4)]])

lemma month_range_end_only:
  assumes "\<not> truthy a" "truthy b" "normalize_date fromiso now b = Inr t" "sub_days t 30 = Inr s"
  shows "resolve_month_range fromiso now a b = Inr (s, t)"
  using assms truthy_not_None[OF assms(2)]
  by (simp add: month_range_given normalize_if_given_truthy normalize_if_given_falsy
      swap_if_after_le[OF sub_days_le[OF assms(4)]])

lemma month_range_both:
  assumes "truthy a" "truthy b" "normalize_date fromiso now a = Inr s" "normalize_date fromiso now b = Inr t"
  shows "resolve_month_range fromiso now a b = Inr (if date_less t s then (t, s) else (s, t))"
  using assms truthy_not_None[OF assms(1)]
  by (simp add: month_range_given normalize_if_given_truthy swap_if_after_def)

lemma month_range_falsy:
  assumes "\<not> truthy a" "\<not> truthy b" "a \<noteq> None \<or> b \<noteq> None" "sub_days now 30 = Inr s"
  shows "resolve_month_range fromiso now a b = Inr (s, now)"
  using assms
  by (simp add: month_range_given normalize_if_given_falsy)

section \<open>ISO strings and weeks: helper facts\<close>

lemma length_digits [simp]: "length (digits k n) = k"
  by (induction k arbitrary: n) auto

lemma length_show_nat: "n < 10 ^ k \<Longrightarrow> 0 < k \<Longrightarrow> length (show_nat n) \<le> k"
proof (induction k arbitrary: n)
  case 0
  then show ?case by simp
next
  case (Suc k)
  show ?case
  proof (cases "n < 10")
    case True
    then show ?thesis by (subst show_nat.simps) simp
  next
    case False
    then have k: "0 < k" using Suc.prems by (cases k) auto
    have "n div 10 < 10 ^ k" using Suc.prems by (simp add: less_mult_imp_div_less mult.commute)
    then have "length (show_nat (n div 10)) \<le> k" using k by (rule Suc.IH)
    then show ?thesis using False by (subst show_nat.simps) simp
  qed
qed

lemma digits_zero: "digits k 0 = replicate k (CHR ''0'')"
proof (induction k)
  case 0
  then show ?case by simp
next
  case (Suc k)
  have "digit_char 0 = CHR ''0''" by code_simp
  then show ?case using Suc by (simp add: replicate_append_same)
qed

lemma zero_pad_digits: "n < 10 ^ k \<Longrightarrow> 0 < k \<Longrightarrow> zero_pad k n = digits k n"
proof (induction k arbitrary: n)
  case 0
  then show ?case by simp
next
  case (Suc k)
  show ?case
  proof (cases "n < 10")
    case True
    then have s: "show_nat n = [digit_char n]" by (subst show_nat.simps) simp
    have "n div 10 = 0" using True by simp
    then show ?thesis by (simp add: zero_pad_def s digits_zero)
  next
    case False
    then have k: "0 < k" using Suc.prems by (cases k) auto
    have lt: "n div 10 < 10 ^ k" using Suc.prems by (simp add: less_mult_imp_div_less mult.commute)
    have s: "show_nat n = show_nat (n div 10) @ [digit_char n]"
      using False by (subst show_nat.simps) simp
    have l: "length (show_nat (n div 10)) \<le> k" by (rule length_show_nat[OF lt k])
    have "zero_pad k (n div 10) = digits k (n div 10)" by (rule Suc.IH[OF lt k])
    then show ?thesis using l by (simp add: zero_pad_def s Suc_diff_le)
  qed
qed

lemma digit_char_less: "a < 10 \<Longrightarrow> b < 10 \<Longrightarrow> a < b \<Longrightarrow> digit_char a < digit_char b"
  by (simp add: digit_char_def less_char_def)

lemma digit_char_mod: "digit_char n = digit_char (n mod 10)"
  by (simp add: digit_char_def)

lemma less_append_same_length:
  "length xs = length ys \<Longrightarrow> xs < ys \<Longrightarrow> xs @ us < ys @ (vs :: string)"
  unfolding list_less_def by (rule lexord_sufI) simp_all

lemma less_append_prefix: "us < vs \<Longrightarrow> xs @ us < xs @ (vs :: string)"
  unfolding list_less_def by (simp add: lexord_append_leftI)

lemma digits_mono: "n < m \<Longrightarrow> m < 10 ^ k \<Longrightarrow> digits k n < digits k m"
proof (induction k arbitrary: n m)
  case 0
  then show ?case by simp
next
  case (Suc k)
  have m10: "m div 10 < 10 ^ k" using Suc.prems by (simp add: less_mult_imp_div_less mult.commute)
  show ?case
  proof (cases "n div 10 < m div 10")
    case True
    have "digits k (n div 10) < digits k (m div 10)" by (rule Suc.IH[OF True m10])
    then show ?thesis by (simp add: less_append_same_length)
  next
    case False
    then have e: "n div 10 = m div 10" using Suc.prems(1) by (simp add: div_le_mono le_antisym)
    then have "n mod 10 < m mod 10" using Suc.prems(1)
      by (metis mod_less_divisor mult_div_mod_eq nat_add_left_cancel_less zero_less_numeral)
    then have "digit_char n < digit_char m"
      using digit_char_less[of "n mod 10" "m mod 10"] digit_char_mod[of n] digit_char_mod[of m]
      by simp
    then have "[digit_char n] < [digit_char m]" by simp
    then show ?thesis by (simp add: e less_append_prefix)
  qed
qed

lemma zero_pad_mono: "n < m \<Longrightarrow> m < 10 ^ k \<Longrightarrow> 0 < k \<Longrightarrow> zero_pad k n < zero_pad k m"
  by (simp add: zero_pad_digits digits_mono)

lemma length_zero_pad: "n < 10 ^ k \<Longrightarrow> 0 < k \<Longrightarrow> length (zero_pad k n) = k"
  by (simp add: zero_pad_digits)

lemma isoformat_mono:
  assumes va: "valid_date a" and vb: "valid_date b" and l: "date_less a b"
  shows "isoformat a < isoformat b"
proof -
  have ba: "year a < 10 ^ 4" "month a < 10 ^ 2" "day a < 10 ^ 2"
    using va by (auto simp: valid_date_def days_in_month_def split: if_splits)
  have bb: "year b < 10 ^ 4" "month b < 10 ^ 2" "day b < 10 ^ 2"
    using vb by (auto simp: valid_date_def days_in_month_def split: if_splits)
  have la: "length (zero_pad 4 (year a)) = length (zero_pad 4 (year b))"
    "length (zero_pad 2 (month a)) = length (zero_pad 2 (month b))"
    using ba bb by (simp_all add: length_zero_pad)
  from l have "year a < year b \<or> (year a = year b \<and> month a < month b)
               \<or> (year a = year b \<and> month a = month b \<and> day a < day b)"
    unfolding date_less_iff date_le_def by arith
  then show ?thesis
  proof (elim disjE conjE)
    assume "year a < year b"
    then have "zero_pad 4 (year a) < zero_pad 4 (year b)" using bb by (intro zero_pad_mono) simp_all
    then show ?thesis unfolding isoformat_def by (rule less_append_same_length[OF la(1)])
  next
    assume e: "year a = year b" and "month a < month b"
    then have "zero_pad 2 (month a) < zero_pad 2 (month b)" using bb by (intro zero_pad_mono) simp_all
    then have "zero_pad 2 (month a) @ ''-'' @ zero_pad 2 (day a)
                 < zero_pad 2 (month b) @ ''-'' @ zero_pad 2 (day b)"
      by (rule less_append_same_length[OF la(2)])
    then show ?thesis unfolding isoformat_def e
      by (intro less_append_prefix)
  next
    assume e: "year a = year b" "month a = month b" and "day a < day b"
    then have "zero_pad 2 (day a) < zero_pad 2 (day b)" using bb by (intro zero_pad_mono) simp_all
    then show ?thesis unfolding isoformat_def e
      by (intro less_append_prefix)
  qed
qed

lemma next_day_cases:
  assumes "next_day d = Inr d'"
  obtains
    (same_month) "day d < days_in_month (year d) (month d)"
      "year d' = year d" "month d' = month d" "day d' = day d + 1"
  | (same_year) "\<not> day d < days_in_month (year d) (month d)" "month d < 12"
      "year d' = year d" "month d' = month d + 1" "day d' = 1"
  | (next_year) "\<not> day d < days_in_month (year d) (month d)" "\<not> month d < 12" "year d < 9999"
      "year d' = year d + 1" "month d' = 1" "day d' = 1"
proof (cases "day d < days_in_month (year d) (month d)")
  case True
  then have "d' = d\<lparr>day := day d + 1\<rparr>" using assms by (simp add: next_day_def)
  then have "year d' = year d" "month d' = month d" "day d' = day d + 1" by simp_all
  then show ?thesis using True same_month by blast
next
  case False
  show ?thesis
  proof (cases "month d < 12")
    case True
    then have "d' = d\<lparr>month := month d + 1, day := 1\<rparr>" using assms False by (simp add: next_day_def)
    then have "year d' = year d" "month d' = month d + 1" "day d' = 1" by simp_all
    then show ?thesis using False True same_year by blast
  next
    case m: False
    show ?thesis
    proof (cases "year d < 9999")
      case True
      then have "d' = \<lparr>year = year d + 1, month = 1, day = 1\<rparr>"
        using assms False m by (simp add: next_day_def)
      then have "year d' = year d + 1" "month d' = 1" "day d' = 1" by simp_all
      then show ?thesis using False m True next_year by blast
    next
      case False
      then show ?thesis using assms \<open>\<not> day d < days_in_month (year d) (month d)\<close> m
        by (simp add: next_day_def)
    qed
  qed
qed

lemma dim_bounds: "1 \<le> days_in_month y m" "days_in_month y m \<le> 31"
  by (simp_all add: days_in_month_def)

lemma next_day_valid:
  assumes v: "valid_date d" and n: "next_day d = Inr d'"
  shows "valid_date d'"
  using n
proof (cases rule: next_day_cases)
  case same_month
  then show ?thesis using v unfolding valid_date_def by simp
next
  case same_year
  then show ?thesis using v dim_bounds(1)[of "year d" "month d + 1"] unfolding valid_date_def by simp
next
  case next_year
  then show ?thesis using v dim_bounds(1)[of "year d + 1" 1] unfolding valid_date_def by simp
qed

lemma next_day_discrete:
  assumes v: "valid_date d" and vx: "valid_date x" and l: "date_less d x"
    and n: "next_day d = Inr d'"
  shows "date_le d' x"
proof -
  have l': "year d < year x \<or> (year d = year x \<and> month d < month x)
            \<or> (year d = year x \<and> month d = month x \<and> day d < day x)"
    using l unfolding date_less_iff date_le_def by arith
  have bx: "1 \<le> month x" "month x \<le> 12" "1 \<le> day x" "day x \<le> days_in_month (year x) (month x)"
    using vx by (simp_all add: valid_date_def)
  from n show ?thesis
  proof (cases rule: next_day_cases)
    case same_month
    then show ?thesis using l' unfolding date_le_def by arith
  next
    case same_year
    then show ?thesis using l' bx unfolding date_le_def by (auto simp: not_less)
  next
    case next_year
    then show ?thesis using l' bx dim_bounds(2)[of "year x" "month x"] unfolding date_le_def
      by (auto simp: not_less)
  qed
qed

lemma next_day_exists:
  assumes v: "valid_date d" and b: "date_le d \<lparr>year = 9999, month = 12, day = k\<rparr>" and k: "k < 31"
  shows "\<exists>d'. next_day d = Inr d' \<and> date_le d' \<lparr>year = 9999, month = 12, day = Suc k\<rparr>"
proof -
  have bd: "year d \<le> 9999" "month d \<le> 12" "1 \<le> day d" "1 \<le> month d"
    using v by (simp_all add: valid_date_def)
  have b': "year d < 9999 \<or> month d < 12 \<or> day d \<le> k"
    using b unfolding date_le_def by auto
  show ?thesis
  proof (cases "day d < days_in_month (year d) (month d)")
    case True
    then have "next_day d = Inr (d\<lparr>day := day d + 1\<rparr>)" by (simp add: next_day_def)
    moreover have "date_le (d\<lparr>day := day d + 1\<rparr>) \<lparr>year = 9999, month = 12, day = Suc k\<rparr>"
      using b' bd unfolding date_le_def by auto
    ultimately show ?thesis by blast
  next
    case False
    show ?thesis
    proof (cases "month d < 12")
      case True
      then have "next_day d = Inr (d\<lparr>month := month d + 1, day := 1\<rparr>)"
        using False by (simp add: next_day_def)
      moreover have "date_le (d\<lparr>month := month d + 1, day := 1\<rparr>)
                       \<lparr>year = 9999, month = 12, day = Suc k\<rparr>"
        using True bd unfolding date_le_def by auto
      ultimately show ?thesis by blast
    next
      case m: False
      have y: "year d < 9999"
      proof (rule ccontr)
        assume "\<not> year d < 9999"
        then have "day d \<le> k" using b' m by simp
        moreover have "month d = 12" using m bd by simp
        ultimately show False using False k by (simp add: days_in_month_def)
      qed
      then have "next_day d = Inr \<lparr>year = year d + 1, month = 1, day = 1\<rparr>"
        using False m by (simp add: next_day_def)
      moreover have "date_le \<lparr>year = year d + 1, month = 1, day = 1\<rparr>
                       \<lparr>year = 9999, month = 12, day = Suc k\<rparr>"
        using y unfolding date_le_def by auto
      ultimately show ?thesis by blast
    qed
  qed
qed

lemma add_days_valid: "valid_date d \<Longrightarrow> add_days d n = Inr d' \<Longrightarrow> valid_date d'"
proof (induction n arbitrary: d)
  case 0
  then show ?case by simp
next
  case (Suc n)
  then obtain d1 where d1: "next_day d = Inr d1" and r: "add_days d1 n = Inr d'"
    by (auto split: sum.splits)
  show ?case by (rule Suc.IH[OF next_day_valid[OF Suc.prems(1) d1] r])
qed

lemma add_days_exists:
  "valid_date d \<Longrightarrow> date_le d \<lparr>year = 9999, month = 12, day = k\<rparr> \<Longrightarrow> k + n \<le> 31 \<Longrightarrow>
   \<exists>d'. add_days d n = Inr d' \<and> date_le d' \<lparr>year = 9999, month = 12, day = k + n\<rparr>"
proof (induction n arbitrary: d k)
  case 0
  then show ?case by simp
next
  case (Suc n)
  have "k < 31" using Suc.prems(3) by simp
  from next_day_exists[OF Suc.prems(1,2) this]
  obtain d1 where d1: "next_day d = Inr d1"
    and b1: "date_le d1 \<lparr>year = 9999, month = 12, day = Suc k\<rparr>" by blast
  have "\<exists>d'. add_days d1 n = Inr d' \<and> date_le d' \<lparr>year = 9999, month = 12, day = Suc k + n\<rparr>"
    using Suc.prems(3) by (intro Suc.IH next_day_valid[OF Suc.prems(1) d1] b1) simp
  then show ?case using d1 by simp
qed

lemma between_add_days:
  "valid_date c \<Longrightarrow> valid_date x \<Longrightarrow> date_le c x \<Longrightarrow> add_days c n = Inr cn \<Longrightarrow> date_le x cn \<Longrightarrow>
   \<exists>j \<le> n. add_days c j = Inr x"
proof (induction n arbitrary: c)
  case 0
  then have "x = c" by (simp add: date_le_antisym)
  then show ?case by simp
next
  case (Suc n)
  show ?case
  proof (cases "x = c")
    case True
    then have "add_days c 0 = Inr x" by simp
    then show ?thesis by blast
  next
    case False
    then have l: "date_less c x" using Suc.prems(3) by (simp add: date_less_def)
    obtain c1 where c1: "next_day c = Inr c1" and r: "add_days c1 n = Inr cn"
      using Suc.prems(4) by (auto split: sum.splits)
    have "date_le c1 x" by (rule next_day_discrete[OF Suc.prems(1,2) l c1])
    from Suc.IH[OF next_day_valid[OF Suc.prems(1) c1] Suc.prems(2) this r Suc.prems(5)]
    obtain j where "j \<le> n" "add_days c1 j = Inr x" by blast
    then have "Suc j \<le> Suc n" "add_days c (Suc j) = Inr x" using c1 by simp_all
    then show ?thesis by blast
  qed
qed

lemma add_days_1: "add_days d 1 = next_day d"
  by (cases "next_day d") simp_all

lemma week_loop_chain:
  "week_loop c stop i evs acc = Inr r \<Longrightarrow> \<exists>ws. r = acc @ ws \<and> week_chain c stop i evs ws"
proof (induction c stop i evs acc arbitrary: r rule: week_loop.induct)
  case (1 cursor end_date week_index events weeks)
  show ?case
  proof (cases "date_le cursor end_date")
    case False
    then have "r = weeks" using "1.prems" by (simp add: week_loop.simps)
    moreover have "week_chain cursor end_date week_index events []"
      using False by (simp add: date_less_iff)
    ultimately show ?thesis by auto
  next
    case True
    then obtain c6 where c6: "add_days cursor 6 = Inr c6"
      using "1.prems" by (cases "add_days cursor 6") (simp_all add: week_loop.simps)
    define we where "we = date_min c6 end_date"
    obtain nx where nx: "add_days we 1 = Inr nx"
      using "1.prems" True c6 by (cases "add_days we 1") (simp_all add: week_loop.simps we_def)
    define w where "w = (week_label_text week_index cursor we, cursor, we,
                         filter (in_week cursor we) events)"
    have r: "week_loop nx end_date (week_index + 1) events (weeks @ [w]) = Inr r"
      using "1.prems" True c6 nx by (simp add: week_loop.simps[of cursor] we_def w_def)
    from "1.IH"[OF True c6 nx[unfolded we_def] r[unfolded w_def we_def]]
    obtain ws where ws: "r = (weeks @ [w]) @ ws" "week_chain nx end_date (week_index + 1) events ws"
      by (auto simp: w_def we_def)
    have nd: "next_day (date_min c6 end_date) = Inr nx"
      using nx by (simp only: add_days_1 we_def)
    have "week_chain cursor end_date week_index events (w # ws)"
      using True c6 ws(2) by (simp add: nd we_def w_def)
    then show ?thesis using ws(1) by auto
  qed
qed

lemma week_loop_returns:
  "valid_date c \<Longrightarrow> valid_date stop \<Longrightarrow> date_le stop \<lparr>year = 9999, month = 12, day = 25\<rparr> \<Longrightarrow>
   \<exists>r. week_loop c stop i evs acc = Inr r"
proof (induction c stop i evs acc rule: week_loop.induct)
  case (1 cursor end_date week_index events weeks)
  show ?case
  proof (cases "date_le cursor end_date")
    case False
    then show ?thesis by (simp add: week_loop.simps)
  next
    case True
    have "date_le cursor \<lparr>year = 9999, month = 12, day = 25\<rparr>"
      by (rule date_le_trans[OF True "1.prems"(3)])
    from add_days_exists[OF "1.prems"(1) this, of 6]
    obtain c6 where c6: "add_days cursor 6 = Inr c6" by auto
    have v6: "valid_date c6" by (rule add_days_valid[OF "1.prems"(1) c6])
    define we where "we = date_min c6 end_date"
    have vwe: "valid_date we" using v6 "1.prems"(2) by (simp add: we_def date_min_def)
    have "date_le we end_date"
      by (simp add: we_def date_min_def date_less_iff date_le_refl)
    then have "date_le we \<lparr>year = 9999, month = 12, day = 25\<rparr>"
      by (rule date_le_trans[OF _ "1.prems"(3)])
    from add_days_exists[OF vwe this, of 1]
    obtain nx where nx: "add_days we 1 = Inr nx" by auto
    have vnx: "valid_date nx" by (rule add_days_valid[OF vwe nx])
    from "1.IH"[OF True c6 nx[unfolded we_def] vnx "1.prems"(2,3)]
    obtain r where "week_loop nx end_date (week_index + 1) events
        (weeks @ [(week_label_text week_index cursor (date_min c6 end_date), cursor,
                   date_min c6 end_date,
                   filter (in_week cursor (date_min c6 end_date)) events)]) = Inr r"
      by blast
    then show ?thesis using True c6 nx by (simp add: week_loop.simps[of cursor] we_def)
  qed
qed

lemma week_ranges_chain:
  assumes "valid_date start" "valid_date stop"
    "date_le stop \<lparr>year = 9999, month = 12, day = 25\<rparr>"
  shows "\<exists>ws. week_ranges start stop evs = Inr ws \<and> week_chain start stop 1 evs ws"
proof -
  obtain r where r: "week_loop start stop 1 evs [] = Inr r"
    using week_loop_returns[OF assms] by blast
  from week_loop_chain[OF r] show ?thesis using r by (auto simp: week_ranges_def)
qed

lemma date_min_cases: "date_min a b = a \<and> date_le a b \<or> date_min a b = b \<and> date_less b a"
  by (simp add: date_min_def date_less_iff)

lemma chain_head:
  assumes ch: "week_chain c stop i evs (w # ws)" and vc: "valid_date c" and vs: "valid_date stop"
  obtains nx where
    "w = (week_label_text i c (w_end w), c, w_end w, filter (in_week c (w_end w)) evs)"
    "date_le c (w_end w)" "date_le (w_end w) stop" "valid_date (w_end w)"
    "\<exists>n \<le> 6. add_days c n = Inr (w_end w)"
    "next_day (w_end w) = Inr nx" "valid_date nx" "week_chain nx stop (Suc i) evs ws"
    "ws \<noteq> [] \<Longrightarrow> add_days c 6 = Inr (w_end w)"
    "ws = [] \<Longrightarrow> w_end w = stop"
proof -
  have le: "date_le c stop" using ch by simp
  obtain c6 where c6: "add_days c 6 = Inr c6" using ch by (cases "add_days c 6") simp_all
  define we where "we = date_min c6 stop"
  have w: "w = (week_label_text i c we, c, we, filter (in_week c we) evs)"
    using ch c6 by (simp add: we_def)
  then have e: "w_end w = we" by (simp add: w_end_def)
  have cs: "case next_day we of Inl e \<Rightarrow> False | Inr nx \<Rightarrow> week_chain nx stop (Suc i) evs ws"
    using ch c6 by (simp add: we_def)
  have "\<exists>nx. next_day we = Inr nx \<and> week_chain nx stop (Suc i) evs ws"
  proof (cases "next_day we")
    case (Inl e)
    then show ?thesis using cs by simp
  next
    case (Inr nx)
    then show ?thesis using cs by simp
  qed
  then obtain nx where nx: "next_day we = Inr nx" and rest: "week_chain nx stop (Suc i) evs ws"
    by blast
  have v6: "valid_date c6" by (rule add_days_valid[OF vc c6])
  have l6: "date_le c c6" by (rule add_days_le[OF c6])
  have vwe: "valid_date we" using v6 vs by (simp add: we_def date_min_def)
  have vnx: "valid_date nx" by (rule next_day_valid[OF vwe nx])
  have cwe: "date_le c we" using l6 le by (simp add: we_def date_min_def)
  have wes: "date_le we stop" using date_min_cases[of c6 stop] by (auto simp: we_def date_le_refl)
  have we6: "date_le we c6"
    using date_min_cases[of c6 stop] by (auto simp: we_def date_le_refl date_less_le)
  have span: "\<exists>n \<le> 6. add_days c n = Inr we"
    by (rule between_add_days[OF vc vwe cwe c6 we6])
  have nonlast: "add_days c 6 = Inr we" if ne: "ws \<noteq> []"
  proof -
    obtain w2 ws2 where "ws = w2 # ws2" using ne by (cases ws) auto
    then have "date_le nx stop" using rest by simp
    then have "we \<noteq> stop" using next_day_gt[OF nx] by auto
    then have "we = c6" using date_min_cases[of c6 stop] by (auto simp: we_def)
    then show ?thesis using c6 by simp
  qed
  have last: "we = stop" if emp: "ws = []"
  proof (rule ccontr)
    assume ne: "we \<noteq> stop"
    then have "date_less we stop" using wes by (simp add: date_less_def)
    then have "date_le nx stop" by (rule next_day_discrete[OF vwe vs _ nx])
    moreover have "date_less stop nx" using rest emp by simp
    ultimately show False by (simp add: date_less_iff)
  qed
  show ?thesis
    by (rule that[of nx]) (use w e cwe wes vwe span nx vnx rest nonlast last in \<open>simp_all\<close>)
qed

lemma chain_nth:
  "week_chain c stop i evs ws \<Longrightarrow> valid_date c \<Longrightarrow> valid_date stop \<Longrightarrow> k < length ws \<Longrightarrow>
   \<exists>c'. valid_date c' \<and> date_le c c' \<and> week_chain c' stop (i + k) evs (drop k ws)"
proof (induction k arbitrary: c i ws)
  case 0
  then show ?case using date_le_refl by auto
next
  case (Suc k)
  then obtain w ws' where ws: "ws = w # ws'" by (cases ws) auto
  from chain_head[OF Suc.prems(1)[unfolded ws] Suc.prems(2,3)]
  obtain nx where cw: "date_le c (w_end w)" and nx: "next_day (w_end w) = Inr nx"
    and vnx: "valid_date nx" and rest: "week_chain nx stop (Suc i) evs ws'"
    by metis
  have "k < length ws'" using Suc.prems(4) ws by simp
  from Suc.IH[OF rest vnx Suc.prems(3) this]
  obtain c' where c': "valid_date c'" "date_le nx c'" "week_chain c' stop (Suc i + k) evs (drop k ws')"
    by blast
  have "date_le c nx"
    by (rule date_le_trans[OF cw date_less_le[OF next_day_less[OF nx]]])
  then have "date_le c c'" using c'(2) by (rule date_le_trans)
  then show ?case using c' by (auto simp: ws)
qed

lemma chain_nth_head:
  assumes ch: "week_chain c stop i evs ws" and vc: "valid_date c" and vs: "valid_date stop"
    and k: "k < length ws"
  shows "valid_date (w_start (ws ! k)) \<and> date_le c (w_start (ws ! k)) \<and>
         week_chain (w_start (ws ! k)) stop (i + k) evs (ws ! k # drop (Suc k) ws)"
proof -
  obtain c' where c': "valid_date c'" "date_le c c'" "week_chain c' stop (i + k) evs (drop k ws)"
    using chain_nth[OF ch vc vs k] by blast
  have d: "drop k ws = ws ! k # drop (Suc k) ws" using k by (simp add: Cons_nth_drop_Suc)
  have "w_start (ws ! k) = c'"
    using chain_head[OF c'(3)[unfolded d] c'(1) vs] by (metis w_start_def fst_conv snd_conv)
  then show ?thesis using c' d by simp
qed

lemma chain_window:
  assumes ch: "week_chain c stop i evs ws" and vc: "valid_date c" and vs: "valid_date stop"
    and k: "k < length ws"
  shows "w_label (ws ! k) = week_label_text (i + k) (w_start (ws ! k)) (w_end (ws ! k))"
    and "w_events (ws ! k) = filter (in_week (w_start (ws ! k)) (w_end (ws ! k))) evs"
    and "date_le (w_start (ws ! k)) (w_end (ws ! k))"
    and "\<exists>n \<le> 6. add_days (w_start (ws ! k)) n = Inr (w_end (ws ! k))"
    and "valid_date (w_start (ws ! k))" and "valid_date (w_end (ws ! k))"
    and "date_le (w_end (ws ! k)) stop"
    and "Suc k < length ws \<Longrightarrow>
           add_days (w_start (ws ! k)) 6 = Inr (w_end (ws ! k)) \<and>
           next_day (w_end (ws ! k)) = Inr (w_start (ws ! Suc k))"
    and "Suc k = length ws \<Longrightarrow> w_end (ws ! k) = stop"
proof -
  define s where "s = w_start (ws ! k)"
  have h: "valid_date s" "week_chain s stop (i + k) evs (ws ! k # drop (Suc k) ws)"
    using chain_nth_head[OF ch vc vs k] by (simp_all add: s_def)
  from chain_head[OF h(2) h(1) vs]
  obtain nx where
    w: "ws ! k = (week_label_text (i + k) s (w_end (ws ! k)), s, w_end (ws ! k),
                  filter (in_week s (w_end (ws ! k))) evs)"
    and f: "date_le s (w_end (ws ! k))" "date_le (w_end (ws ! k)) stop" "valid_date (w_end (ws ! k))"
      "\<exists>n \<le> 6. add_days s n = Inr (w_end (ws ! k))"
    and nx: "next_day (w_end (ws ! k)) = Inr nx" "valid_date nx"
      "week_chain nx stop (Suc (i + k)) evs (drop (Suc k) ws)"
    and nl: "drop (Suc k) ws \<noteq> [] \<Longrightarrow> add_days s 6 = Inr (w_end (ws ! k))"
    and la: "drop (Suc k) ws = [] \<Longrightarrow> w_end (ws ! k) = stop"
    by metis
  show "w_label (ws ! k) = week_label_text (i + k) (w_start (ws ! k)) (w_end (ws ! k))"
    using w unfolding s_def[symmetric] by (metis w_label_def fst_conv)
  show "w_events (ws ! k) = filter (in_week (w_start (ws ! k)) (w_end (ws ! k))) evs"
    using w unfolding s_def[symmetric] by (metis w_events_def snd_conv)
  show "date_le (w_start (ws ! k)) (w_end (ws ! k))" using f(1) by (simp add: s_def)
  show "\<exists>n \<le> 6. add_days (w_start (ws ! k)) n = Inr (w_end (ws ! k))" using f(4) by (simp add: s_def)
  show "valid_date (w_start (ws ! k))" using h(1) by (simp add: s_def)
  show "valid_date (w_end (ws ! k))" by (rule f(3))
  show "date_le (w_end (ws ! k)) stop" by (rule f(2))
  show "add_days (w_start (ws ! k)) 6 = Inr (w_end (ws ! k)) \<and>
        next_day (w_end (ws ! k)) = Inr (w_start (ws ! Suc k))" if sk: "Suc k < length ws"
  proof -
    have d: "drop (Suc k) ws = ws ! Suc k # drop (Suc (Suc k)) ws"
      using sk by (simp add: Cons_nth_drop_Suc)
    then have ne: "drop (Suc k) ws \<noteq> []" by simp
    have "w_start (ws ! Suc k) = nx"
      using chain_head[OF nx(3)[unfolded d] nx(2) vs] by (metis w_start_def fst_conv snd_conv)
    then show ?thesis using nl[OF ne] nx(1) by (simp add: s_def)
  qed
  show "w_end (ws ! k) = stop" if "Suc k = length ws"
    using la that by simp
qed

lemma chain_separated:
  assumes ch: "week_chain c stop i evs ws" and vc: "valid_date c" and vs: "valid_date stop"
    and jk: "j < k" and k: "k < length ws"
  shows "date_less (w_end (ws ! j)) (w_start (ws ! k))"
proof -
  have j: "j < length ws" using jk k by simp
  define s where "s = w_start (ws ! j)"
  have h: "valid_date s" "week_chain s stop (i + j) evs (ws ! j # drop (Suc j) ws)"
    using chain_nth_head[OF ch vc vs j] by (simp_all add: s_def)
  from chain_head[OF h(2) h(1) vs]
  obtain nx where nx: "next_day (w_end (ws ! j)) = Inr nx" "valid_date nx"
      "week_chain nx stop (Suc (i + j)) evs (drop (Suc j) ws)"
    by metis
  have kk: "k - Suc j < length (drop (Suc j) ws)" using jk k by simp
  have "date_le nx (w_start (drop (Suc j) ws ! (k - Suc j)))"
    using chain_nth_head[OF nx(3) nx(2) vs kk] by simp
  moreover have "drop (Suc j) ws ! (k - Suc j) = ws ! k" using jk k by simp
  ultimately have "date_le nx (w_start (ws ! k))" by simp
  then show ?thesis
    using next_day_gt[OF nx(1)] date_le_trans[of "w_start (ws ! k)" "w_end (ws ! j)" nx]
      date_le_total[of "w_start (ws ! k)" "w_end (ws ! j)"]
    by (auto simp: date_less_iff dest: date_le_trans)
qed

lemma chain_cover:
  "week_chain c stop i evs ws \<Longrightarrow> valid_date c \<Longrightarrow> valid_date stop \<Longrightarrow> valid_date d \<Longrightarrow>
   date_le c d \<Longrightarrow> date_le d stop \<Longrightarrow>
   \<exists>k < length ws. date_le (w_start (ws ! k)) d \<and> date_le d (w_end (ws ! k))"
proof (induction ws arbitrary: c i)
  case Nil
  then have "date_less stop c" by simp
  moreover have "date_le c stop" by (rule date_le_trans[OF Nil.prems(5,6)])
  ultimately show ?case by (simp add: date_less_iff)
next
  case (Cons w ws)
  from chain_head[OF Cons.prems(1,2,3)]
  obtain nx where w: "w = (week_label_text i c (w_end w), c, w_end w, filter (in_week c (w_end w)) evs)"
    and vwe: "valid_date (w_end w)"
    and nx: "next_day (w_end w) = Inr nx" "valid_date nx" "week_chain nx stop (Suc i) evs ws"
    by metis
  have s: "w_start w = c" using w by (metis w_start_def fst_conv snd_conv)
  show ?case
  proof (cases "date_le d (w_end w)")
    case True
    then have "date_le (w_start ((w # ws) ! 0)) d \<and> date_le d (w_end ((w # ws) ! 0))"
      using Cons.prems(5) s by simp
    then show ?thesis by blast
  next
    case False
    then have "date_less (w_end w) d" by (simp add: date_less_iff)
    then have "date_le nx d" by (rule next_day_discrete[OF vwe Cons.prems(4) _ nx(1)])
    from Cons.IH[OF nx(3) nx(2) Cons.prems(3,4) this Cons.prems(6)]
    obtain k where "k < length ws" "date_le (w_start (ws ! k)) d" "date_le d (w_end (ws ! k))"
      by blast
    then have "Suc k < length (w # ws) \<and> date_le (w_start ((w # ws) ! Suc k)) d
               \<and> date_le d (w_end ((w # ws) ! Suc k))"
      by simp
    then show ?thesis by blast
  qed
qed

lemma in_week_disjoint:
  assumes "valid_date e1" "valid_date s2" "date_less e1 s2"
  shows "\<not> (in_week s1 e1 ev \<and> in_week s2 e2 ev)"
proof
  assume a: "in_week s1 e1 ev \<and> in_week s2 e2 ev"
  then have "isoformat s2 \<le> date ev" "date ev \<le> isoformat e1" by (simp_all add: in_week_def)
  then have "isoformat s2 \<le> isoformat e1" by (rule order_trans)
  moreover have "isoformat e1 < isoformat s2" by (rule isoformat_mono[OF assms])
  ultimately show False by simp
qed

lemma add_days_6:
  "add_days d 6 = (case next_day d of Inl e \<Rightarrow> Inl e | Inr d' \<Rightarrow> add_days d' 5)"
proof -
  have "(6::nat) = Suc 5" by simp
  then show ?thesis by (simp only: add_days.simps)
qed

section \<open>Composition: helper facts\<close>

lemma given_events_empty: "given_events (Some []) = given_events None"
  by (simp add: given_events_def)

lemma drift_alias: "run_monthly_drift_audit eng (Some []) st = run_monthly_drift_audit eng None st"
  by (simp add: run_monthly_drift_audit_def audit_events_def given_events_def)

lemma drift_requery:
  "issues (run_monthly_drift_audit eng None st)
     = (case drift_auditor eng of
          Some audit \<Rightarrow> audit (fst (get_events None None None None True st))
        | None \<Rightarrow> [])"
  by (simp add: run_monthly_drift_audit_def audit_events_def given_events_def Let_def)

lemma narrative_alias:
  "generate_month_narrative fromiso eng now (Some []) arcs st = generate_month_narrative fromiso eng now None arcs st"
  by (simp add: generate_month_narrative_def narrative_events_def given_events_def)

lemma narrative_requery:
  "narrative_events fromiso now None st
     = (case gather_month_events fromiso now None None st of Inl e \<Rightarrow> Inl e | Inr md \<Rightarrow> Inr (md_events md))"
  by (simp add: narrative_events_def given_events_def)

lemma weekly_alias:
  "synthesize_weekly_arcs fromiso eng now sd ed (Some []) st = synthesize_weekly_arcs fromiso eng now sd ed None st"
  by (simp add: synthesize_weekly_arcs_def given_events_def split: sum.splits prod.splits)

lemma gather_events:
  "resolve_month_range fromiso now sd ed = Inr (s, e) \<Longrightarrow> gather_month_events fromiso now sd ed st = Inr md \<Longrightarrow>
   md_events md = fst (get_events None (Some (isoformat s)) (Some (isoformat e)) None False st)"
  by (auto simp: gather_month_events_def Let_def split: sum.splits)

lemma construct_empty_month:
  assumes c: "construct_month_arc fromiso eng now sd ed st = Inr a" and e: "md_events (ma_events a) = []"
  shows "ma_drift a = run_monthly_drift_audit eng None st"
    and "generate_month_narrative fromiso eng now None (Some (ma_weekly_arcs a)) st = Inr (ma_narrative a)"
proof -
  obtain md where g: "gather_month_events fromiso now sd ed st = Inr md"
    using c by (cases "gather_month_events fromiso now sd ed st") (simp_all add: construct_month_arc_def)
  obtain ws where w: "synthesize_weekly_arcs fromiso eng now sd ed (Some (md_events md)) st = Inr ws"
    using c g by (cases "synthesize_weekly_arcs fromiso eng now sd ed (Some (md_events md)) st")
      (simp_all add: construct_month_arc_def)
  obtain nr where n: "generate_month_narrative fromiso eng now (Some (md_events md)) (Some ws) st = Inr nr"
    using c g w by (cases "generate_month_narrative fromiso eng now (Some (md_events md)) (Some ws) st")
      (simp_all add: construct_month_arc_def)
  obtain s t where r: "resolve_month_range fromiso now sd ed = Inr (s, t)"
    using c g w n by (cases "resolve_month_range fromiso now sd ed")
      (auto simp: construct_month_arc_def)
  have a: "a = \<lparr>ma_time_window = isoformat s @ '' to '' @ isoformat t,
                 ma_events = md,
                 ma_tasks = summarize_month_tasks (round_score eng) (task_collaborator eng),
                 ma_weekly_arcs = ws,
                 ma_narrative = nr,
                 ma_themes = infer_monthly_themes (md_events md) ws,
                 ma_epics = detect_epic_progression (md_events md),
                 ma_drift = run_monthly_drift_audit eng (Some (md_events md)) st\<rparr>"
    using c g w n r by (simp add: construct_month_arc_def Let_def)
  have em: "md_events md = []" using e a by simp
  show "ma_drift a = run_monthly_drift_audit eng None st"
    using a em by (simp add: drift_alias)
  show "generate_month_narrative fromiso eng now None (Some (ma_weekly_arcs a)) st = Inr (ma_narrative a)"
    using a em n by (simp add: narrative_alias)
qed

lemma generate_eq:
  "generate_month_narrative fromiso eng now evs arcs st
     = (case narrative_events fromiso now evs st of
          Inl e \<Rightarrow> Inl e | Inr me \<Rightarrow> Inr (narrated eng me arcs))"
  by (simp add: generate_month_narrative_def narrated_def Let_def split: sum.splits)

lemma narrative_empty:
  assumes "resolve_month_range fromiso now None None = Inr (s, t)"
  shows "generate_month_narrative fromiso eng now (Some []) arcs st
     = (case week_ranges s t (month_query s t st) of
          Inl e \<Rightarrow> Inl e
        | Inr weeks \<Rightarrow> Inr (narrated eng (month_query s t st) arcs))"
  using assms
  by (simp add: generate_eq narrative_events_def given_events_def gather_month_events_def
      month_query_def Let_def split: sum.splits)

lemma weekly_empty:
  assumes "resolve_month_range fromiso now sd ed = Inr (s, t)"
  shows "synthesize_weekly_arcs fromiso eng now sd ed (Some []) st
     = (case week_ranges s t (month_query s t st) of
          Inl e \<Rightarrow> Inl e
        | Inr weeks \<Rightarrow> Inr (arcs_of_weeks eng weeks))"
  using assms
  by (simp add: synthesize_weekly_arcs_def given_events_def month_query_def arcs_of_weeks_def
      Let_def split: sum.splits)

lemma drift_empty:
  "issues (run_monthly_drift_audit eng (Some []) st)
     = (case drift_auditor eng of
          Some audit \<Rightarrow> audit (fst (get_events None None None None True st))
        | None \<Rightarrow> [])"
  by (simp add: run_monthly_drift_audit_def audit_events_def given_events_def Let_def)

lemma construct_empty_narrative:
  assumes c: "construct_month_arc fromiso eng now sd ed st = Inr a"
    and e: "md_events (ma_events a) = []"
    and r: "resolve_month_range fromiso now None None = Inr (s, t)"
  shows "ma_narrative a = narrated eng (month_query s t st) (Some (ma_weekly_arcs a))"
proof -
  have "generate_month_narrative fromiso eng now (Some []) (Some (ma_weekly_arcs a)) st
          = Inr (ma_narrative a)"
    using construct_empty_month(2)[OF c e] by (simp add: narrative_alias)
  then show ?thesis
    by (simp add: narrative_empty[OF r] split: sum.splits)
qed

lemma iso_examples:
  "isoformat ex_jan1 = ''2024-01-01''" "isoformat ex_jan9 = ''2024-01-09''"
  "isoformat ex_dec1 = ''2024-12-01''" "isoformat ex_dec31 = ''2024-12-31''"
  by (simp_all add: isoformat_def zero_pad_def show_nat.simps digit_char_def
      ex_jan1_def ex_jan9_def ex_dec1_def ex_dec31_def char_of_def bit_Suc_0_iff)

lemma ex_candidates: "candidates None ex_timeline = [ex_tournament, ex_christmas]"
  by (simp add: candidates_def sorted_years_def shard_def ex_timeline_def)

lemma ex_queries:
  "fst (get_events None (Some ''2024-01-01'') (Some ''2024-01-09'') None False ex_timeline) = []"
  "fst (get_events None (Some ''2024-12-01'') (Some ''2024-12-31'') None False ex_timeline)
     = [ex_christmas]"
  "fst (get_events None None None None True ex_timeline) = [ex_tournament, ex_christmas]"
  by (simp_all add: get_events_filter ex_candidates ex_tournament_def ex_christmas_def)

lemma gather_ok:
  assumes "resolve_month_range fromiso now sd ed = Inr (s, t)"
    and "week_ranges s t (fst (get_events None (Some (isoformat s)) (Some (isoformat t))
                                 None False st)) = Inr ws"
  shows "\<exists>md. gather_month_events fromiso now sd ed st = Inr md \<and>
           md_events md = fst (get_events None (Some (isoformat s)) (Some (isoformat t))
                                 None False st)"
  using assms by (simp add: gather_month_events_def Let_def)

lemma synth_ok:
  assumes "resolve_month_range fromiso now sd ed = Inr (s, t)"
    and "week_ranges s t
           (if given_events evs then the evs
            else fst (get_events None (Some (isoformat s)) (Some (isoformat t)) None False st))
         = Inr ws"
  shows "\<exists>arcs. synthesize_weekly_arcs fromiso eng now sd ed evs st = Inr arcs"
  using assms by (simp add: synthesize_weekly_arcs_def Let_def)

lemma narrative_ok:
  assumes "narrative_events fromiso now evs st = Inr me"
  shows "\<exists>nr. generate_month_narrative fromiso eng now evs arcs st = Inr nr \<and>
           mn_hook nr = (case narrative_stitcher eng of
                           Some stitch \<Rightarrow> (case stitch me of StitchText x \<Rightarrow> x | StitchObj h a \<Rightarrow> h)
                         | None \<Rightarrow> [])"
  using assms by (simp add: generate_month_narrative_def Let_def split: option.splits)

lemma construct_ok:
  assumes g: "gather_month_events fromiso now sd ed st = Inr md"
    and w: "synthesize_weekly_arcs fromiso eng now sd ed (Some (md_events md)) st = Inr arcs"
    and n: "generate_month_narrative fromiso eng now (Some (md_events md)) (Some arcs) st = Inr nr"
    and r: "resolve_month_range fromiso now sd ed = Inr (s, t)"
  shows "\<exists>a. construct_month_arc fromiso eng now sd ed st = Inr a \<and> ma_events a = md \<and>
           ma_narrative a = nr \<and>
           ma_drift a = run_monthly_drift_audit eng (Some (md_events md)) st"
  using assms by (simp add: construct_month_arc_def Let_def)

lemma week_ranges_ok:
  "valid_date s \<Longrightarrow> valid_date t \<Longrightarrow> date_le t \<lparr>year = 9999, month = 12, day = 25\<rparr> \<Longrightarrow>
   \<exists>ws. week_ranges s t evs = Inr ws"
  using week_ranges_chain by blast

lemma ex_valid:
  "valid_date ex_jan1" "valid_date ex_jan9" "valid_date ex_dec1" "valid_date ex_dec31"
  "valid_date ex_now"
  "date_le ex_jan9 \<lparr>year = 9999, month = 12, day = 25\<rparr>"
  "date_le ex_dec31 \<lparr>year = 9999, month = 12, day = 25\<rparr>"
  by (simp_all add: valid_date_def days_in_month_def date_le_def ex_jan1_def ex_jan9_def
      ex_dec1_def ex_dec31_def ex_now_def)

lemma ex_ranges:
  "resolve_month_range fromiso ex_now (Some (DateObj ex_jan1)) (Some (DateObj ex_jan9))
     = Inr (ex_jan1, ex_jan9)"
  "resolve_month_range fromiso ex_now None None = Inr (ex_dec1, ex_dec31)"
  "resolve_month_range fromiso ex_now (Some (DateObj ex_dec1)) (Some (DateObj ex_dec31))
     = Inr (ex_dec1, ex_dec31)"
proof -
  have "\<not> date_less ex_jan9 ex_jan1"
    by (simp add: date_less_def date_le_def ex_jan1_def ex_jan9_def)
  then show "resolve_month_range fromiso ex_now (Some (DateObj ex_jan1)) (Some (DateObj ex_jan9))
     = Inr (ex_jan1, ex_jan9)"
    using month_range_both[where a = "Some (DateObj ex_jan1)" and b = "Some (DateObj ex_jan9)"
        and now = ex_now and s = ex_jan1 and t = ex_jan9 and fromiso = fromiso]
    by (simp add: truthy_def normalize_date_def)
  show "resolve_month_range fromiso ex_now None None = Inr (ex_dec1, ex_dec31)"
    using month_range_default[OF ex_valid(5)]
    by (simp add: ex_now_def ex_dec1_def ex_dec31_def days_in_month_def)
  have "\<not> date_less ex_dec31 ex_dec1"
    by (simp add: date_less_def date_le_def ex_dec1_def ex_dec31_def)
  then show "resolve_month_range fromiso ex_now (Some (DateObj ex_dec1))
      (Some (DateObj ex_dec31)) = Inr (ex_dec1, ex_dec31)"
    using month_range_both[where a = "Some (DateObj ex_dec1)" and b = "Some (DateObj ex_dec31)"
        and now = ex_now and s = ex_dec1 and t = ex_dec31 and fromiso = fromiso]
    by (simp add: truthy_def normalize_date_def)
qed

lemma ex_current_month:
  "\<not> isl (gather_month_events fromiso ex_now None None ex_timeline)"
  "md_events (projr (gather_month_events fromiso ex_now None None ex_timeline)) = [ex_christmas]"
  "narrative_events fromiso ex_now (Some []) ex_timeline = Inr [ex_christmas]"
proof -
  obtain ws where "week_ranges ex_dec1 ex_dec31 [ex_christmas] = Inr ws"
    using week_ranges_ok[OF ex_valid(3,4,7)] by blast
  then obtain md where md: "gather_month_events fromiso ex_now None None ex_timeline = Inr md"
      "md_events md = [ex_christmas]"
    using gather_ok[OF ex_ranges(2), where st = ex_timeline and ws = ws] by (auto simp: iso_examples ex_queries)
  show "\<not> isl (gather_month_events fromiso ex_now None None ex_timeline)" by (simp add: md)
  show "md_events (projr (gather_month_events fromiso ex_now None None ex_timeline)) = [ex_christmas]"
    by (simp add: md)
  show "narrative_events fromiso ex_now (Some []) ex_timeline = Inr [ex_christmas]"
    by (simp add: narrative_events_def given_events_def md)
qed

lemma ex_arc:
  "\<not> isl (construct_month_arc fromiso ex_engine ex_now (Some (DateObj ex_jan1)) (Some (DateObj ex_jan9))
            ex_timeline)"
  "md_events (ma_events (projr (construct_month_arc fromiso ex_engine ex_now (Some (DateObj ex_jan1))
            (Some (DateObj ex_jan9)) ex_timeline))) = []"
  "issues (ma_drift (projr (construct_month_arc fromiso ex_engine ex_now (Some (DateObj ex_jan1))
            (Some (DateObj ex_jan9)) ex_timeline))) = [''Tournament'', ''Christmas'']"
  "mn_hook (ma_narrative (projr (construct_month_arc fromiso ex_engine ex_now (Some (DateObj ex_jan1))
            (Some (DateObj ex_jan9)) ex_timeline))) = ''Christmas''"
proof -
  let ?sd = "Some (DateObj ex_jan1)" and ?ed = "Some (DateObj ex_jan9)"
  obtain ws where ws: "week_ranges ex_jan1 ex_jan9 [] = Inr ws"
    using week_ranges_ok[OF ex_valid(1,2,6)] by blast
  obtain md where md: "gather_month_events fromiso ex_now ?sd ?ed ex_timeline = Inr md" "md_events md = []"
    using gather_ok[OF ex_ranges(1), where st = ex_timeline and ws = ws] ws by (auto simp: iso_examples ex_queries)
  obtain arcs where arcs: "synthesize_weekly_arcs fromiso ex_engine ex_now ?sd ?ed (Some (md_events md))
                             ex_timeline = Inr arcs"
    using synth_ok[OF ex_ranges(1), where evs = "Some []" and st = ex_timeline and ws = ws
        and eng = ex_engine] ws
    by (auto simp: iso_examples ex_queries given_events_def md(2))
  obtain nr where nr: "generate_month_narrative fromiso ex_engine ex_now (Some (md_events md)) (Some arcs)
                         ex_timeline = Inr nr"
      and hook: "mn_hook nr = ''Christmas''"
    using narrative_ok[OF ex_current_month(3), where eng = ex_engine and arcs = "Some arcs"]
    by (auto simp: md(2) ex_engine_def ex_christmas_def)
  obtain a where a: "construct_month_arc fromiso ex_engine ex_now ?sd ?ed ex_timeline = Inr a"
      "ma_events a = md" "ma_narrative a = nr"
      "ma_drift a = run_monthly_drift_audit ex_engine (Some (md_events md)) ex_timeline"
    using construct_ok[OF md(1) arcs nr ex_ranges(1)] by blast
  show "\<not> isl (construct_month_arc fromiso ex_engine ex_now ?sd ?ed ex_timeline)" by (simp add: a)
  show "md_events (ma_events (projr (construct_month_arc fromiso ex_engine ex_now ?sd ?ed ex_timeline))) = []"
    by (simp add: a md)
  show "issues (ma_drift (projr (construct_month_arc fromiso ex_engine ex_now ?sd ?ed ex_timeline)))
          = [''Tournament'', ''Christmas'']"
    by (simp add: a md drift_alias drift_requery)
       (simp add: ex_engine_def ex_queries ex_tournament_def ex_christmas_def)
  show "mn_hook (ma_narrative (projr (construct_month_arc fromiso ex_engine ex_now ?sd ?ed ex_timeline)))
          = ''Christmas''"
    by (simp add: a hook)
qed


section \<open>The parser of the examples\<close>

lemma ex_parses:
  "ex_fromiso ''2025-03-01'' = Inr \<lparr>year = 2025, month = 3, day = 1\<rparr>"
  "ex_fromiso ''2024-01-01'' = Inr \<lparr>year = 2024, month = 1, day = 1\<rparr>"
  "ex_fromiso ''2024-01-05'' = Inr \<lparr>year = 2024, month = 1, day = 5\<rparr>"
  "ex_fromiso ''2024-01-01T10:00:00'' = Inr \<lparr>year = 2024, month = 1, day = 1\<rparr>"
  "ex_fromiso ''2024-05-01T10:30:00.123456'' = Inr \<lparr>year = 2024, month = 5, day = 1\<rparr>"
  by (simp_all add: ex_fromiso_def ex_time_part_def ex_date_part_def mk_date_def valid_date_def
      days_in_month_def digit_val_def)

section \<open>Claims about the store\<close>

text \<open>
  Claim C5 (archive idempotence). When some shard holds a row with the identifier,
  \<^verbatim>\<open>archive_event\<close> returns an archived event with that identifier, and a second call on
  the store the first call left returns the same event and leaves that store as it is.
\<close>

theorem archive_event_idempotent:
  assumes "map_of st yr = Some evs" "e \<in> set evs" "event_id e = eid"
  shows "\<exists>ev. fst (archive_event eid st) = Some ev \<and> event_id ev = eid \<and> archived ev \<and>
           archive_event eid (snd (archive_event eid st)) = (Some ev, snd (archive_event eid st))"
proof -
  obtain y where f: "find (has_id eid st) (map fst st) = Some y"
    using archive_event_found[OF assms] by blast
  define ms where "ms = filter (\<lambda>e. event_id e = eid) (shard st y)"
  define st1 where "st1 = save_year y (map (mark eid) (shard st y)) st"
  have ky: "y \<in> fst ` set st" and hy: "has_id eid st y" using find_key[OF f] by auto
  have ne: "ms \<noteq> []" using hy by (auto simp: ms_def has_id_def filter_empty_conv)
  have r1: "archive_event eid st = (Some (mark eid (last ms)), st1)"
    by (simp add: archive_event_eq f ms_def st1_def)
  have lm: "last ms \<in> set ms" using ne by simp
  then have idl: "event_id (last ms) = eid" by (simp add: ms_def)
  have keys: "map fst st1 = map fst st" unfolding st1_def by (rule keys_save_year[OF ky])
  have "has_id eid st1 = has_id eid st" by (simp add: st1_def has_id_save_mark)
  then have f1: "find (has_id eid st1) (map fst st1) = Some y"
    by (simp add: keys f)
  have sh: "shard st1 y = map (mark eid) (shard st y)" by (simp add: st1_def shard_save_year)
  have l2: "last (filter (\<lambda>e. event_id e = eid) (shard st1 y)) = mark eid (last ms)"
    unfolding sh ms_def by (rule last_filter_mark) (use ne in \<open>simp add: ms_def\<close>)
  have s2: "save_year y (map (mark eid) (shard st1 y)) st1 = st1"
    unfolding sh by (simp add: st1_def save_year_twice[OF ky] comp_def)
  have r2: "archive_event eid st1 = (Some (mark eid (last ms)), st1)"
    by (simp add: archive_event_eq f1 l2 s2)
  show ?thesis using r1 r2 idl by (auto simp: mark_def)
qed

theorem archive_event_idempotent_witness:
  "map_of [(2025, [ex_old])] 2025 = Some [ex_old] \<and> ex_old \<in> set [ex_old] \<and>
   event_id ex_old = ''e1'' \<and>
   (\<exists>ev. fst (archive_event ''e1'' [(2025, [ex_old])]) = Some ev \<and> event_id ev = ''e1'' \<and>
      archived ev \<and>
      archive_event ''e1'' (snd (archive_event ''e1'' [(2025, [ex_old])]))
        = (Some ev, snd (archive_event ''e1'' [(2025, [ex_old])])))"
  using archive_event_idempotent [of "[(2025, [ex_old])]" 2025 "[ex_old]" ex_old "''e1''"]
  by (simp add: ex_old_def)

text \<open>
  Claim C3 (conjunctive filtering). \<^verbatim>\<open>get_events\<close> returns, in load order, exactly the
  candidate events (the requested shard, or every shard when no year is given) that are not
  archived unless archived events are requested, share a tag with the given tags when a
  non-empty tag list is given, and whose date string lies between the non-empty bounds
  given, in the lexicographic order of strings.
\<close>

theorem get_events_conjunctive:
  "fst (get_events yr sd ed tgs ia st) =
     filter (\<lambda>e. (\<not> ia \<longrightarrow> \<not> archived e) \<and>
                 (\<forall>ts. tgs = Some ts \<and> ts \<noteq> [] \<longrightarrow> set ts \<inter> set (tags e) \<noteq> {}) \<and>
                 (\<forall>s. sd = Some s \<and> s \<noteq> [] \<longrightarrow> s \<le> date e) \<and>
                 (\<forall>s. ed = Some s \<and> s \<noteq> [] \<longrightarrow> date e \<le> s))
       (candidates yr st)"
proof -
  have c: "fst (case yr of Some y \<Rightarrow> load_year y st | None \<Rightarrow> load_all (sorted_years st) st)
             = candidates yr st"
    by (cases yr) (simp_all add: candidates_def load_year_shard load_all_eq sorted_years_def)
  show ?thesis
    unfolding get_events_def Let_def
    by (cases tgs) (simp_all add: split_beta c in_range_conj)
qed

theorem get_events_conjunctive_witness:
  "fst (get_events None (Some ''2024-06-01'') (Some ''2024-12-31'') (Some [''holiday'']) False
         [(2024, [ex_new_year, ex_tournament, ex_christmas])]) = [ex_christmas]"
  using get_events_conjunctive [of None "Some ''2024-06-01''" "Some ''2024-12-31''"
      "Some [''holiday'']" False "[(2024, [ex_new_year, ex_tournament, ex_christmas])]"]
  by (simp add: candidates_def sorted_years_def shard_def ex_new_year_def ex_tournament_def
      ex_christmas_def)







section \<open>Claims about the aggregation\<close>

text \<open>
  Claim C7 (efficiency fallback): the code does not do what the claim says. For a task
  collaborator that exposes only the accessors, with one completed and no overdue task, the
  summary keeps the initial score \<open>0\<close>, where the claim gives
  \<open>1 / max 1 (1 + 0) = 1\<close>; the same holds whenever \<^verbatim>\<open>summarize_month\<close> is absent.
\<close>

theorem efficiency_fallback_unreached:
  "completed (summarize_month_tasks round2 ex_accessor_engine) = [''t1''] \<and>
   overdue (summarize_month_tasks round2 ex_accessor_engine) = [] \<and>
   efficiency_score (summarize_month_tasks round2 ex_accessor_engine) = Some 0 \<and>
   rat_of_nat (length [''t1'']) / rat_of_nat (max 1 (length [''t1''] + length ([] :: task list))) = 1"
  by (simp add: summarize_month_tasks_def ex_accessor_engine_def safe_task_call_def)

text \<open>
  Claim C8 (epic progression counting). The output has one record for each epic, in the
  order in which the epics are first met; its group holds every event once for each of the
  event's tags that map to the epic; the progress text reports the length of the group and
  the milestones are the non-empty titles of the group's events.
\<close>

theorem detect_epic_progression_counts:
  "detect_epic_progression events =
     map (\<lambda>k. \<lparr>epic = k,
                progress = show_nat (length (epic_group k events)) @ '' updates recorded.'',
                milestones = filter (\<lambda>t. t \<noteq> []) (map title (epic_group k events))\<rparr>)
         (epic_order events) \<and>
   count_list (epic_group k events) e
     = count_list events e * length (filter (\<lambda>t. map_of epic_tags t = Some k) (tags e))"
  by (simp add: detect_epic_progression_eq count_epic_group)

theorem detect_epic_progression_counts_witness:
  "detect_epic_progression [ex_sprint] =
     [\<lparr>epic = ''Robotics: Omega-1'', progress = ''2 updates recorded.'',
       milestones = [''Robotics sprint'', ''Robotics sprint'']\<rparr>] \<and>
   count_list (epic_group ''Robotics: Omega-1'' [ex_sprint]) ex_sprint = 2"
proof -
  have o: "epic_order [ex_sprint] = [''Robotics: Omega-1'']" by code_simp
  have g: "epic_group ''Robotics: Omega-1'' [ex_sprint] = [ex_sprint, ex_sprint]" by code_simp
  have n: "show_nat (Suc (Suc 0)) = ''2''" by code_simp
  have t: "title ex_sprint = ''Robotics sprint''" by (simp add: ex_sprint_def)
  have f: "length (filter (\<lambda>t. map_of epic_tags t = Some ''Robotics: Omega-1'') (tags ex_sprint)) = 2"
    by (simp add: ex_sprint_def epic_tags_def)
  show ?thesis
    using detect_epic_progression_counts [of "[ex_sprint]" "''Robotics: Omega-1''" ex_sprint]
    by (simp add: o g n t f)
qed

text \<open>
  Claim C9 (deterministic themes). The themes are a function of the event sequence and the
  weekly-arc sequence, so equal inputs give equal lists; and when no tag occurs more than
  once, so that every frequency is tied, the trending tags are the first three tags in the
  order in which they are first seen, written in the first line in sorted order.
\<close>

theorem themes_deterministic:
  "(events = events' \<and> weekly_arcs = weekly_arcs' \<longrightarrow>
      infer_monthly_themes events weekly_arcs = infer_monthly_themes events' weekly_arcs') \<and>
   (distinct (concat (map tags events)) \<and> concat (map tags events) \<noteq> [] \<longrightarrow>
      trending_tags (count_tags events) = take 3 (concat (map tags events)) \<and>
      hd (infer_monthly_themes events weekly_arcs)
        = ''Trending tags: '' @ join '', '' (sort (take 3 (concat (map tags events)))))"
  using themes_first_line by blast

theorem themes_deterministic_witness:
  "infer_monthly_themes [ex_tournament, ex_sprint, ex_fix] []
     = infer_monthly_themes [ex_tournament, ex_sprint, ex_fix] [] \<and>
   trending_tags (count_tags [ex_tournament, ex_sprint, ex_fix]) = [''bjj'', ''robotics'', ''omega1''] \<and>
   hd (infer_monthly_themes [ex_tournament, ex_sprint, ex_fix] [])
     = ''Trending tags: bjj, omega1, robotics''"
proof -
  have h: "distinct (concat (map tags [ex_tournament, ex_sprint, ex_fix])) \<and>
           concat (map tags [ex_tournament, ex_sprint, ex_fix]) \<noteq> []"
    by (simp add: ex_tournament_def ex_sprint_def ex_fix_def)
  have c: "concat (map tags [ex_tournament, ex_sprint, ex_fix])
             = [''bjj'', ''robotics'', ''omega1'', ''correction'']"
    by (simp add: ex_tournament_def ex_sprint_def ex_fix_def)
  have s: "sort [''bjj'', ''robotics'', ''omega1''] = [''bjj'', ''omega1'', ''robotics'']"
    by code_simp
  note t = themes_deterministic [of "[ex_tournament, ex_sprint, ex_fix]"
      "[ex_tournament, ex_sprint, ex_fix]" "[]" "[]"]
  from t h have "trending_tags (count_tags [ex_tournament, ex_sprint, ex_fix])
                   = take 3 (concat (map tags [ex_tournament, ex_sprint, ex_fix])) \<and>
      hd (infer_monthly_themes [ex_tournament, ex_sprint, ex_fix] [])
        = ''Trending tags: '' @ join '', ''
            (sort (take 3 (concat (map tags [ex_tournament, ex_sprint, ex_fix]))))"
    by blast
  then show ?thesis unfolding c by (simp add: s)
qed

section \<open>Claims about ranges and weeks\<close>

text \<open>
  Claim C6 (month-range resolution), as amended. For a fixed reference date \<open>now\<close>:
  with both bounds \<^verbatim>\<open>None\<close> the range is the first through the last day of the month of
  \<open>now\<close> (for every \<open>now\<close> before December 9999, where the first of the next month does not
  exist); with one bound given and non-empty and the other absent or empty, the other bound
  is 30 days from it; with both given, the two are put in order; and with no bound given
  but at least one present as an empty string, the range is the 30 days up to \<open>now\<close>. A
  bound given as a string counts as the date \<^verbatim>\<open>datetime.fromisoformat\<close> reads from it, the
  date part for a timestamp. The result is a function of \<open>now\<close> and the two bounds.
\<close>

theorem resolve_month_range_cases:
  "(valid_date now \<and> (year now < 9999 \<or> month now < 12) \<longrightarrow>
      resolve_month_range fromiso now None None
        = Inr (\<lparr>year = year now, month = month now, day = 1\<rparr>,
               \<lparr>year = year now, month = month now,
                day = days_in_month (year now) (month now)\<rparr>)) \<and>
   (truthy a \<and> \<not> truthy b \<and> normalize_date fromiso now a = Inr s \<and> add_days s 30 = Inr t \<longrightarrow>
      resolve_month_range fromiso now a b = Inr (s, t)) \<and>
   (\<not> truthy a \<and> truthy b \<and> normalize_date fromiso now b = Inr t \<and> sub_days t 30 = Inr s \<longrightarrow>
      resolve_month_range fromiso now a b = Inr (s, t)) \<and>
   (truthy a \<and> truthy b \<and> normalize_date fromiso now a = Inr s \<and>
    normalize_date fromiso now b = Inr t \<longrightarrow>
      resolve_month_range fromiso now a b = Inr (if date_less t s then (t, s) else (s, t))) \<and>
   (\<not> truthy a \<and> \<not> truthy b \<and> (a \<noteq> None \<or> b \<noteq> None) \<and> sub_days now 30 = Inr s \<longrightarrow>
      resolve_month_range fromiso now a b = Inr (s, now))"
proof (intro conjI impI)
  assume "valid_date now \<and> (year now < 9999 \<or> month now < 12)"
  then show "resolve_month_range fromiso now None None
        = Inr (\<lparr>year = year now, month = month now, day = 1\<rparr>,
               \<lparr>year = year now, month = month now,
                day = days_in_month (year now) (month now)\<rparr>)"
    by (intro month_range_default) simp_all
next
  assume "truthy a \<and> \<not> truthy b \<and> normalize_date fromiso now a = Inr s \<and> add_days s 30 = Inr t"
  then show "resolve_month_range fromiso now a b = Inr (s, t)"
    by (intro month_range_start_only) simp_all
next
  assume "\<not> truthy a \<and> truthy b \<and> normalize_date fromiso now b = Inr t \<and> sub_days t 30 = Inr s"
  then show "resolve_month_range fromiso now a b = Inr (s, t)"
    by (intro month_range_end_only) simp_all
next
  assume "truthy a \<and> truthy b \<and> normalize_date fromiso now a = Inr s \<and>
    normalize_date fromiso now b = Inr t"
  then show "resolve_month_range fromiso now a b = Inr (if date_less t s then (t, s) else (s, t))"
    by (intro month_range_both) simp_all
next
  assume "\<not> truthy a \<and> \<not> truthy b \<and> (a \<noteq> None \<or> b \<noteq> None) \<and> sub_days now 30 = Inr s"
  then show "resolve_month_range fromiso now a b = Inr (s, now)"
    by (intro month_range_falsy) simp_all
qed

text \<open>
  The claim as stated fails when a bound is the empty string and the other is omitted: the
  result is neither the calendar month of \<open>now\<close> nor a span from a given bound, but the 30
  days up to \<open>now\<close>.
\<close>

theorem resolve_month_range_cases_counterexample:
  "resolve_month_range ex_fromiso \<lparr>year = 2024, month = 3, day = 15\<rparr> (Some (DateStr [])) None
     = Inr (\<lparr>year = 2024, month = 2, day = 14\<rparr>, \<lparr>year = 2024, month = 3, day = 15\<rparr>)"
  by code_simp

theorem resolve_month_range_cases_witness:
  "resolve_month_range ex_fromiso ex_now None None
     = Inr (\<lparr>year = 2024, month = 12, day = 1\<rparr>, \<lparr>year = 2024, month = 12, day = 31\<rparr>) \<and>
   resolve_month_range ex_fromiso ex_now (Some (DateStr ''2024-01-01'')) None
     = Inr (\<lparr>year = 2024, month = 1, day = 1\<rparr>, \<lparr>year = 2024, month = 1, day = 31\<rparr>) \<and>
   resolve_month_range ex_fromiso ex_now (Some (DateStr ''2024-01-01T10:00:00'')) None
     = Inr (\<lparr>year = 2024, month = 1, day = 1\<rparr>, \<lparr>year = 2024, month = 1, day = 31\<rparr>) \<and>
   resolve_month_range ex_fromiso ex_now None (Some (DateObj \<lparr>year = 2024, month = 3, day = 31\<rparr>))
     = Inr (\<lparr>year = 2024, month = 3, day = 1\<rparr>, \<lparr>year = 2024, month = 3, day = 31\<rparr>) \<and>
   resolve_month_range ex_fromiso ex_now (Some (DateObj \<lparr>year = 2024, month = 2, day = 10\<rparr>))
       (Some (DateStr ''2024-01-05''))
     = Inr (\<lparr>year = 2024, month = 1, day = 5\<rparr>, \<lparr>year = 2024, month = 2, day = 10\<rparr>) \<and>
   resolve_month_range ex_fromiso ex_now (Some (DateStr [])) None
     = Inr (\<lparr>year = 2024, month = 11, day = 15\<rparr>, ex_now)"
proof -
  let ?jan1 = "\<lparr>year = 2024, month = 1, day = 1\<rparr>"
  let ?jan5 = "\<lparr>year = 2024, month = 1, day = 5\<rparr>"
  let ?jan31 = "\<lparr>year = 2024, month = 1, day = 31\<rparr>"
  let ?feb10 = "\<lparr>year = 2024, month = 2, day = 10\<rparr>"
  let ?mar1 = "\<lparr>year = 2024, month = 3, day = 1\<rparr>"
  let ?mar31 = "\<lparr>year = 2024, month = 3, day = 31\<rparr>"
  let ?nov15 = "\<lparr>year = 2024, month = 11, day = 15\<rparr>"
  have v: "valid_date ex_now \<and> (year ex_now < 9999 \<or> month ex_now < 12)"
    by (simp add: ex_now_def valid_date_def days_in_month_def)
  have c1: "resolve_month_range ex_fromiso ex_now None None
     = Inr (\<lparr>year = 2024, month = 12, day = 1\<rparr>, \<lparr>year = 2024, month = 12, day = 31\<rparr>)"
    using resolve_month_range_cases [of ex_now ex_fromiso None None ?jan1 ?jan1] v
    by (simp add: ex_now_def days_in_month_def)
  have t1: "truthy (Some (DateStr ''2024-01-01''))" "\<not> truthy None" "truthy (Some (DateObj d))"
    "\<not> truthy (Some (DateStr []))" for d
    by (simp_all add: truthy_def)
  have n1: "normalize_date ex_fromiso ex_now (Some (DateStr ''2024-01-01'')) = Inr ?jan1"
    by (simp add: normalize_date_def ex_parses)
  have a1: "add_days ?jan1 30 = Inr ?jan31" by code_simp
  have c2: "resolve_month_range ex_fromiso ex_now (Some (DateStr ''2024-01-01'')) None = Inr (?jan1, ?jan31)"
    using resolve_month_range_cases [of ex_now ex_fromiso "Some (DateStr ''2024-01-01'')" None ?jan1 ?jan31]
      t1 n1 a1 by blast
  have t2: "truthy (Some (DateStr ''2024-01-01T10:00:00''))" by (simp add: truthy_def)
  have n2: "normalize_date ex_fromiso ex_now (Some (DateStr ''2024-01-01T10:00:00'')) = Inr ?jan1"
    by (simp add: normalize_date_def ex_parses)
  have c2': "resolve_month_range ex_fromiso ex_now (Some (DateStr ''2024-01-01T10:00:00'')) None
               = Inr (?jan1, ?jan31)"
    using resolve_month_range_cases [of ex_now ex_fromiso
        "Some (DateStr ''2024-01-01T10:00:00'')" None ?jan1 ?jan31] t1 t2 n2 a1 by blast
  have n3: "normalize_date ex_fromiso ex_now (Some (DateObj ?mar31)) = Inr ?mar31"
    by (simp add: normalize_date_def)
  have s3: "sub_days ?mar31 30 = Inr ?mar1" by code_simp
  have c3: "resolve_month_range ex_fromiso ex_now None (Some (DateObj ?mar31)) = Inr (?mar1, ?mar31)"
    using resolve_month_range_cases [of ex_now ex_fromiso None "Some (DateObj ?mar31)" ?mar1 ?mar31]
      t1 n3 s3 by blast
  have n4: "normalize_date ex_fromiso ex_now (Some (DateObj ?feb10)) = Inr ?feb10"
    by (simp add: normalize_date_def)
  have n4': "normalize_date ex_fromiso ex_now (Some (DateStr ''2024-01-05'')) = Inr ?jan5"
    by (simp add: normalize_date_def ex_parses)
  have t4: "truthy (Some (DateStr ''2024-01-05''))" by (simp add: truthy_def)
  have l4: "date_less ?jan5 ?feb10" by (simp add: date_less_def date_le_def)
  have "resolve_month_range ex_fromiso ex_now (Some (DateObj ?feb10)) (Some (DateStr ''2024-01-05''))
          = Inr (if date_less ?jan5 ?feb10 then (?jan5, ?feb10) else (?feb10, ?jan5))"
    using resolve_month_range_cases [of ex_now ex_fromiso "Some (DateObj ?feb10)"
        "Some (DateStr ''2024-01-05'')" ?feb10 ?jan5] t1 t4 n4 n4' by blast
  then have c4: "resolve_month_range ex_fromiso ex_now (Some (DateObj ?feb10)) (Some (DateStr ''2024-01-05''))
          = Inr (?jan5, ?feb10)"
    using l4 by simp
  have s5: "sub_days ex_now 30 = Inr ?nov15" by code_simp
  have c5: "resolve_month_range ex_fromiso ex_now (Some (DateStr [])) None = Inr (?nov15, ex_now)"
    using resolve_month_range_cases [of ex_now ex_fromiso "Some (DateStr [])" None ?nov15 ?nov15]
      t1 s5 by blast
  show ?thesis using c1 c2 c2' c3 c4 c5 by blast
qed

text \<open>
  Claim C4 (week partition coverage), as amended. For every pair of dates with
  \<open>start \<le> stop\<close> and \<open>stop\<close> no later than 9999-12-25, and every event list, the loop returns a
  non-empty list of weeks: the first starts at \<open>start\<close>, the last ends at \<open>stop\<close>; week
  \<open>k\<close> is labelled \<open>Week k+1\<close> with its bounds and holds the events whose date string lies
  between the ISO strings of its bounds; every week spans at most seven days, every week
  but the last exactly seven, and the next week starts the day after; every date of the
  range lies in some week; and weeks are disjoint, as ranges of dates and as sets of events.
\<close>

theorem week_ranges_partition:
  assumes vs: "valid_date start" and ve: "valid_date stop" and le: "date_le start stop"
    and b: "date_le stop \<lparr>year = 9999, month = 12, day = 25\<rparr>"
  shows "\<exists>ws. week_ranges start stop events = Inr ws \<and> ws \<noteq> [] \<and>
      w_start (hd ws) = start \<and> w_end (last ws) = stop \<and>
      (\<forall>k < length ws.
          w_label (ws ! k) = week_label_text (Suc k) (w_start (ws ! k)) (w_end (ws ! k)) \<and>
          w_events (ws ! k) = filter (in_week (w_start (ws ! k)) (w_end (ws ! k))) events \<and>
          date_le (w_start (ws ! k)) (w_end (ws ! k)) \<and>
          (\<exists>n \<le> 6. add_days (w_start (ws ! k)) n = Inr (w_end (ws ! k))) \<and>
          (Suc k < length ws \<longrightarrow>
             add_days (w_start (ws ! k)) 6 = Inr (w_end (ws ! k)) \<and>
             next_day (w_end (ws ! k)) = Inr (w_start (ws ! Suc k)))) \<and>
      (\<forall>d. valid_date d \<and> date_le start d \<and> date_le d stop \<longrightarrow>
          (\<exists>k < length ws. date_le (w_start (ws ! k)) d \<and> date_le d (w_end (ws ! k)))) \<and>
      (\<forall>j k. j < k \<and> k < length ws \<longrightarrow>
          date_less (w_end (ws ! j)) (w_start (ws ! k)) \<and>
          (\<forall>ev. \<not> (in_week (w_start (ws ! j)) (w_end (ws ! j)) ev \<and>
                    in_week (w_start (ws ! k)) (w_end (ws ! k)) ev)))"
proof -
  obtain ws where r: "week_ranges start stop events = Inr ws"
    and ch: "week_chain start stop 1 events ws"
    using week_ranges_chain[OF vs ve b] by blast
  have ne: "ws \<noteq> []"
  proof
    assume "ws = []"
    then have "date_less stop start" using ch by simp
    then show False using le by (simp add: date_less_iff)
  qed
  then have l0: "0 < length ws" by simp
  obtain w ws' where cons: "ws = w # ws'" using ne by (cases ws) auto
  have "w_start w = start"
    using chain_head[OF ch[unfolded cons] vs ve] by (metis w_start_def fst_conv snd_conv)
  then have first: "w_start (hd ws) = start" by (simp add: cons)
  have "Suc (length ws - 1) = length ws" using l0 by simp
  then have "w_end (ws ! (length ws - 1)) = stop"
    using chain_window(9)[OF ch vs ve, of "length ws - 1"] l0 by simp
  then have last: "w_end (last ws) = stop" using ne by (simp add: last_conv_nth)
  have win: "\<forall>k < length ws.
          w_label (ws ! k) = week_label_text (Suc k) (w_start (ws ! k)) (w_end (ws ! k)) \<and>
          w_events (ws ! k) = filter (in_week (w_start (ws ! k)) (w_end (ws ! k))) events \<and>
          date_le (w_start (ws ! k)) (w_end (ws ! k)) \<and>
          (\<exists>n \<le> 6. add_days (w_start (ws ! k)) n = Inr (w_end (ws ! k))) \<and>
          (Suc k < length ws \<longrightarrow>
             add_days (w_start (ws ! k)) 6 = Inr (w_end (ws ! k)) \<and>
             next_day (w_end (ws ! k)) = Inr (w_start (ws ! Suc k)))"
  proof (intro allI impI)
    fix k assume k: "k < length ws"
    note cw = chain_window[OF ch vs ve k]
    show "w_label (ws ! k) = week_label_text (Suc k) (w_start (ws ! k)) (w_end (ws ! k)) \<and>
          w_events (ws ! k) = filter (in_week (w_start (ws ! k)) (w_end (ws ! k))) events \<and>
          date_le (w_start (ws ! k)) (w_end (ws ! k)) \<and>
          (\<exists>n \<le> 6. add_days (w_start (ws ! k)) n = Inr (w_end (ws ! k))) \<and>
          (Suc k < length ws \<longrightarrow>
             add_days (w_start (ws ! k)) 6 = Inr (w_end (ws ! k)) \<and>
             next_day (w_end (ws ! k)) = Inr (w_start (ws ! Suc k)))"
      using cw(1) cw(2) cw(3) cw(4) cw(8) by simp
  qed
  have cov: "\<forall>d. valid_date d \<and> date_le start d \<and> date_le d stop \<longrightarrow>
          (\<exists>k < length ws. date_le (w_start (ws ! k)) d \<and> date_le d (w_end (ws ! k)))"
    using chain_cover[OF ch vs ve] by blast
  have sep: "\<forall>j k. j < k \<and> k < length ws \<longrightarrow>
          date_less (w_end (ws ! j)) (w_start (ws ! k)) \<and>
          (\<forall>ev. \<not> (in_week (w_start (ws ! j)) (w_end (ws ! j)) ev \<and>
                    in_week (w_start (ws ! k)) (w_end (ws ! k)) ev))"
  proof (intro allI impI)
    fix j k assume jk: "j < k \<and> k < length ws"
    then have j: "j < length ws" and k: "k < length ws" and lt: "j < k" by auto
    have s: "date_less (w_end (ws ! j)) (w_start (ws ! k))"
      by (rule chain_separated[OF ch vs ve lt k])
    have v1: "valid_date (w_end (ws ! j))" by (rule chain_window(6)[OF ch vs ve j])
    have v2: "valid_date (w_start (ws ! k))" by (rule chain_window(5)[OF ch vs ve k])
    show "date_less (w_end (ws ! j)) (w_start (ws ! k)) \<and>
          (\<forall>ev. \<not> (in_week (w_start (ws ! j)) (w_end (ws ! j)) ev \<and>
                    in_week (w_start (ws ! k)) (w_end (ws ! k)) ev))"
      using s in_week_disjoint[OF v1 v2 s] by blast
  qed
  show ?thesis using r ne first last win cov sep by blast
qed

text \<open>
  The claim as stated fails at the end of the calendar: the loop adds six days to the
  cursor before taking the minimum with the end of the range, and \<^verbatim>\<open>date\<close> has no day after
  9999-12-31.
\<close>

theorem week_ranges_partition_counterexample:
  "valid_date ex_last_day \<and> date_le ex_last_day ex_last_day \<and>
   week_ranges ex_last_day ex_last_day [] = Inl OverflowError"
proof -
  have nd: "next_day ex_last_day = Inl OverflowError"
    by (simp add: next_day_def ex_last_day_def days_in_month_def)
  have "week_ranges ex_last_day ex_last_day [] = Inl OverflowError"
    by (simp add: week_ranges_def week_loop.simps[of ex_last_day] add_days_6 nd date_le_refl)
  moreover have "valid_date ex_last_day"
    by (simp add: ex_last_day_def valid_date_def days_in_month_def)
  ultimately show ?thesis by (simp add: date_le_refl)
qed

theorem week_ranges_partition_witness:
  "\<exists>ws. week_ranges ex_jan1 ex_jan9 [ex_sprint] = Inr ws \<and> ws \<noteq> [] \<and>
      w_start (hd ws) = ex_jan1 \<and> w_end (last ws) = ex_jan9 \<and>
      (\<forall>k < length ws.
          w_label (ws ! k) = week_label_text (Suc k) (w_start (ws ! k)) (w_end (ws ! k)) \<and>
          w_events (ws ! k) = filter (in_week (w_start (ws ! k)) (w_end (ws ! k))) [ex_sprint] \<and>
          date_le (w_start (ws ! k)) (w_end (ws ! k)) \<and>
          (\<exists>n \<le> 6. add_days (w_start (ws ! k)) n = Inr (w_end (ws ! k))) \<and>
          (Suc k < length ws \<longrightarrow>
             add_days (w_start (ws ! k)) 6 = Inr (w_end (ws ! k)) \<and>
             next_day (w_end (ws ! k)) = Inr (w_start (ws ! Suc k)))) \<and>
      (\<forall>d. valid_date d \<and> date_le ex_jan1 d \<and> date_le d ex_jan9 \<longrightarrow>
          (\<exists>k < length ws. date_le (w_start (ws ! k)) d \<and> date_le d (w_end (ws ! k)))) \<and>
      (\<forall>j k. j < k \<and> k < length ws \<longrightarrow>
          date_less (w_end (ws ! j)) (w_start (ws ! k)) \<and>
          (\<forall>ev. \<not> (in_week (w_start (ws ! j)) (w_end (ws ! j)) ev \<and>
                    in_week (w_start (ws ! k)) (w_end (ws ! k)) ev)))"
  using week_ranges_partition [of ex_jan1 ex_jan9 "[ex_sprint]"]
  by (simp add: ex_jan1_def ex_jan9_def valid_date_def days_in_month_def date_le_def)

section \<open>Claims about the composition\<close>

text \<open>
  Claim C10 (empty event list), as amended. In \<^verbatim>\<open>run_monthly_drift_audit\<close>,
  \<^verbatim>\<open>generate_month_narrative\<close> and \<^verbatim>\<open>synthesize_weekly_arcs\<close> an empty event list behaves as
  an omitted one. The audit then audits the result of the query over the whole store with
  archived events. The narrative is then built from the events of the calendar month of
  \<open>now\<close>, archived ones excluded, which \<^verbatim>\<open>gather_month_events()\<close> queries (and fails where
  the weeks of that month cannot be computed). The weekly arcs are then built from the weeks
  of the requested range over the events queried for that range. So \<^verbatim>\<open>construct_month_arc\<close>
  over a range without events audits the whole timeline and narrates the events of the
  current calendar month.
\<close>

theorem empty_events_alias:
  "run_monthly_drift_audit eng (Some []) st = run_monthly_drift_audit eng None st \<and>
   issues (run_monthly_drift_audit eng (Some []) st)
     = (case drift_auditor eng of
          Some audit \<Rightarrow> audit (fst (get_events None None None None True st))
        | None \<Rightarrow> []) \<and>
   generate_month_narrative fromiso eng now (Some []) arcs st
     = generate_month_narrative fromiso eng now None arcs st \<and>
   (resolve_month_range fromiso now None None = Inr (s, t) \<longrightarrow>
      generate_month_narrative fromiso eng now (Some []) arcs st
        = (case week_ranges s t (month_query s t st) of
             Inl e \<Rightarrow> Inl e
           | Inr weeks \<Rightarrow> Inr (narrated eng (month_query s t st) arcs))) \<and>
   synthesize_weekly_arcs fromiso eng now sd ed (Some []) st
     = synthesize_weekly_arcs fromiso eng now sd ed None st \<and>
   (resolve_month_range fromiso now sd ed = Inr (s', t') \<longrightarrow>
      synthesize_weekly_arcs fromiso eng now sd ed (Some []) st
        = (case week_ranges s' t' (month_query s' t' st) of
             Inl e \<Rightarrow> Inl e
           | Inr weeks \<Rightarrow> Inr (arcs_of_weeks eng weeks))) \<and>
   (construct_month_arc fromiso eng now sd ed st = Inr a \<and> md_events (ma_events a) = [] \<longrightarrow>
      ma_drift a = run_monthly_drift_audit eng None st \<and>
      issues (ma_drift a)
        = (case drift_auditor eng of
             Some audit \<Rightarrow> audit (fst (get_events None None None None True st))
           | None \<Rightarrow> []) \<and>
      generate_month_narrative fromiso eng now None (Some (ma_weekly_arcs a)) st
        = Inr (ma_narrative a)) \<and>
   (construct_month_arc fromiso eng now sd ed st = Inr a \<and> md_events (ma_events a) = [] \<and>
    resolve_month_range fromiso now None None = Inr (s, t) \<longrightarrow>
      ma_narrative a = narrated eng (month_query s t st) (Some (ma_weekly_arcs a)))"
proof (intro conjI impI)
  show "run_monthly_drift_audit eng (Some []) st = run_monthly_drift_audit eng None st"
    by (rule drift_alias)
  show "issues (run_monthly_drift_audit eng (Some []) st)
     = (case drift_auditor eng of
          Some audit \<Rightarrow> audit (fst (get_events None None None None True st))
        | None \<Rightarrow> [])"
    by (rule drift_empty)
  show "generate_month_narrative fromiso eng now (Some []) arcs st
     = generate_month_narrative fromiso eng now None arcs st"
    by (rule narrative_alias)
  show "synthesize_weekly_arcs fromiso eng now sd ed (Some []) st
     = synthesize_weekly_arcs fromiso eng now sd ed None st"
    by (rule weekly_alias)
next
  assume "resolve_month_range fromiso now None None = Inr (s, t)"
  then show "generate_month_narrative fromiso eng now (Some []) arcs st
        = (case week_ranges s t (month_query s t st) of
             Inl e \<Rightarrow> Inl e
           | Inr weeks \<Rightarrow> Inr (narrated eng (month_query s t st) arcs))"
    by (rule narrative_empty)
next
  assume "resolve_month_range fromiso now sd ed = Inr (s', t')"
  then show "synthesize_weekly_arcs fromiso eng now sd ed (Some []) st
        = (case week_ranges s' t' (month_query s' t' st) of
             Inl e \<Rightarrow> Inl e
           | Inr weeks \<Rightarrow> Inr (arcs_of_weeks eng weeks))"
    by (rule weekly_empty)
next
  assume h: "construct_month_arc fromiso eng now sd ed st = Inr a \<and> md_events (ma_events a) = []"
  then show d: "ma_drift a = run_monthly_drift_audit eng None st"
    using construct_empty_month(1) by blast
  show "issues (ma_drift a)
        = (case drift_auditor eng of
             Some audit \<Rightarrow> audit (fst (get_events None None None None True st))
           | None \<Rightarrow> [])"
    by (simp only: d drift_requery)
  from h show "generate_month_narrative fromiso eng now None (Some (ma_weekly_arcs a)) st
        = Inr (ma_narrative a)"
    using construct_empty_month(2) by blast
next
  assume "construct_month_arc fromiso eng now sd ed st = Inr a \<and> md_events (ma_events a) = [] \<and>
    resolve_month_range fromiso now None None = Inr (s, t)"
  then show "ma_narrative a = narrated eng (month_query s t st) (Some (ma_weekly_arcs a))"
    using construct_empty_narrative by blast
qed

text \<open>
  The claim as stated fails for the narrative: with a tournament in June and Christmas in
  December 2024, \<open>now\<close> in December and a requested range in January without events, the
  audit sees both events and the narrative only the one of December.
\<close>

theorem empty_events_alias_counterexample:
  "\<not> isl (construct_month_arc ex_fromiso ex_engine ex_now (Some (DateObj ex_jan1)) (Some (DateObj ex_jan9))
            ex_timeline) \<and>
   md_events (ma_events (projr (construct_month_arc ex_fromiso ex_engine ex_now (Some (DateObj ex_jan1))
            (Some (DateObj ex_jan9)) ex_timeline))) = [] \<and>
   fst (get_events None None None None True ex_timeline) = [ex_tournament, ex_christmas] \<and>
   issues (ma_drift (projr (construct_month_arc ex_fromiso ex_engine ex_now (Some (DateObj ex_jan1))
            (Some (DateObj ex_jan9)) ex_timeline))) = [''Tournament'', ''Christmas''] \<and>
   mn_hook (ma_narrative (projr (construct_month_arc ex_fromiso ex_engine ex_now (Some (DateObj ex_jan1))
            (Some (DateObj ex_jan9)) ex_timeline))) = ''Christmas''"
  using ex_arc ex_queries(3) by blast

theorem empty_events_alias_witness:
  "ma_drift (projr (construct_month_arc ex_fromiso ex_engine ex_now (Some (DateObj ex_jan1))
       (Some (DateObj ex_jan9)) ex_timeline))
     = run_monthly_drift_audit ex_engine None ex_timeline \<and>
   issues (ma_drift (projr (construct_month_arc ex_fromiso ex_engine ex_now
       (Some (DateObj ex_jan1)) (Some (DateObj ex_jan9)) ex_timeline)))
     = map title [ex_tournament, ex_christmas] \<and>
   ma_narrative (projr (construct_month_arc ex_fromiso ex_engine ex_now (Some (DateObj ex_jan1))
       (Some (DateObj ex_jan9)) ex_timeline))
     = narrated ex_engine [ex_christmas]
         (Some (ma_weekly_arcs (projr (construct_month_arc ex_fromiso ex_engine ex_now
            (Some (DateObj ex_jan1)) (Some (DateObj ex_jan9)) ex_timeline)))) \<and>
   generate_month_narrative ex_fromiso ex_engine ex_now (Some []) None ex_timeline
     = Inr (narrated ex_engine [ex_christmas] None) \<and>
   synthesize_weekly_arcs ex_fromiso ex_engine ex_now (Some (DateObj ex_dec1))
       (Some (DateObj ex_dec31)) (Some []) ex_timeline
     = (case week_ranges ex_dec1 ex_dec31 [ex_christmas] of
          Inl e \<Rightarrow> Inl e
        | Inr weeks \<Rightarrow> Inr (arcs_of_weeks ex_engine weeks))"
proof -
  let ?X = "construct_month_arc ex_fromiso ex_engine ex_now (Some (DateObj ex_jan1))
              (Some (DateObj ex_jan9)) ex_timeline"
  have x: "?X = Inr (projr ?X)"
    using ex_arc(1)[where fromiso = ex_fromiso] by (cases ?X) simp_all
  have q: "month_query ex_dec1 ex_dec31 ex_timeline = [ex_christmas]"
    by (simp add: month_query_def iso_examples ex_queries)
  obtain ws where ws: "week_ranges ex_dec1 ex_dec31 [ex_christmas] = Inr ws"
    using week_ranges_ok[OF ex_valid(3,4,7)] by blast
  have au: "drift_auditor ex_engine = Some (map title)" by (simp add: ex_engine_def)
  note t = empty_events_alias [where fromiso = ex_fromiso and eng = ex_engine
      and st = ex_timeline and now = ex_now and arcs = None
      and sd = "Some (DateObj ex_jan1)" and ed = "Some (DateObj ex_jan9)"
      and s = ex_dec1 and t = ex_dec31 and a = "projr ?X"]
  note u = empty_events_alias [where fromiso = ex_fromiso and eng = ex_engine
      and st = ex_timeline and now = ex_now
      and sd = "Some (DateObj ex_dec1)" and ed = "Some (DateObj ex_dec31)"
      and s' = ex_dec1 and t' = ex_dec31]
  have c1: "ma_drift (projr ?X) = run_monthly_drift_audit ex_engine None ex_timeline"
    using t x ex_arc(2) by blast
  have "issues (ma_drift (projr ?X))
          = (case drift_auditor ex_engine of
               Some audit \<Rightarrow> audit (fst (get_events None None None None True ex_timeline))
             | None \<Rightarrow> [])"
    using t x ex_arc(2) by blast
  then have c2: "issues (ma_drift (projr ?X)) = map title [ex_tournament, ex_christmas]"
    by (simp only: au ex_queries(3) option.case)
  have "ma_narrative (projr ?X)
          = narrated ex_engine (month_query ex_dec1 ex_dec31 ex_timeline)
              (Some (ma_weekly_arcs (projr ?X)))"
    using t x ex_arc(2) ex_ranges(2) by blast
  then have c3: "ma_narrative (projr ?X)
          = narrated ex_engine [ex_christmas] (Some (ma_weekly_arcs (projr ?X)))"
    by (simp only: q)
  have "generate_month_narrative ex_fromiso ex_engine ex_now (Some []) None ex_timeline
          = (case week_ranges ex_dec1 ex_dec31 (month_query ex_dec1 ex_dec31 ex_timeline) of
               Inl e \<Rightarrow> Inl e
             | Inr weeks \<Rightarrow>
                 Inr (narrated ex_engine (month_query ex_dec1 ex_dec31 ex_timeline) None))"
    using t ex_ranges(2) by blast
  then have c4: "generate_month_narrative ex_fromiso ex_engine ex_now (Some []) None ex_timeline
          = Inr (narrated ex_engine [ex_christmas] None)"
    by (simp add: q ws)
  have r: "resolve_month_range ex_fromiso ex_now (Some (DateObj ex_dec1))
             (Some (DateObj ex_dec31)) = Inr (ex_dec1, ex_dec31)"
    by (rule ex_ranges(3))
  have "synthesize_weekly_arcs ex_fromiso ex_engine ex_now (Some (DateObj ex_dec1))
            (Some (DateObj ex_dec31)) (Some []) ex_timeline
          = (case week_ranges ex_dec1 ex_dec31 (month_query ex_dec1 ex_dec31 ex_timeline) of
               Inl e \<Rightarrow> Inl e
             | Inr weeks \<Rightarrow> Inr (arcs_of_weeks ex_engine weeks))"
    using u r by blast
  then have c5: "synthesize_weekly_arcs ex_fromiso ex_engine ex_now (Some (DateObj ex_dec1))
            (Some (DateObj ex_dec31)) (Some []) ex_timeline
          = (case week_ranges ex_dec1 ex_dec31 [ex_christmas] of
               Inl e \<Rightarrow> Inl e
             | Inr weeks \<Rightarrow> Inr (arcs_of_weeks ex_engine weeks))"
    by (simp only: q)
  show ?thesis using c1 c2 c3 c4 c5 by blast
qed
end
